theory Spec2Isabelle
  imports Complex_Main "HOL-Library.Multiset"
begin

section \<open>StatsArray: a sorted dynamic array of numbers with descriptive statistics\<close>

text \<open>
  Shallow embedding of the class \<open>StatsArray\<close> of \<^verbatim>\<open>StatsArray.h\<close>.

  Conventions of the embedding.
  \<^item> A stored element is a finite \<^verbatim>\<open>double\<close> (\<^verbatim>\<open>insert\<close> asserts \<^verbatim>\<open>isfinite(x)\<close>), and
    it is modelled by the real number it denotes; \<open>-0.0\<close> and \<open>0.0\<close> are the same
    number (they compare equal in the source as well). The container only compares and
    copies elements. The arithmetic of the statistics is IEEE 754 arithmetic with
    rounding, overflow to an infinity and NaN: \<^verbatim>\<open>double\<close> is binary64 and
    \<^verbatim>\<open>long double\<close> is the 80-bit x87 extended format; see the section on
    floating-point arithmetic below.
  \<^item> A \<^verbatim>\<open>size_t\<close> is a \<open>nat\<close>. The class only counts the slots of an array of doubles
    that it has allocated, so none of its index computations can wrap around; every
    subtraction of the source is guarded by the size check that precedes it.
  \<^item> \<^verbatim>\<open>new (nothrow) double[n]\<close> always succeeds and yields \<open>n\<close> slots. The content
    of a fresh slot is indeterminate in the source; the model writes \<open>0\<close> there. Every
    loop of the source is bounded by \<open>_used\<close>, and the properties below are stated
    about the slots below \<open>_used\<close> only.
  \<^item> A thrown exception is a value \<open>Inl e\<close>; a failing \<^verbatim>\<open>assert\<close> is
    \<open>Inl AssertionFailed\<close>.
\<close>

subsection \<open>Exceptions\<close>

datatype error =
    DatasetEmptyException string
  | InsufficientDataException string
  | AssertionFailed

subsection \<open>The container\<close>

record StatsArray =
  data :: "real list"
  used :: nat
  cap :: nat

text \<open>\<^verbatim>\<open>StatsArray()\<close>: no allocation.\<close>

definition StatsArray_default :: StatsArray where
  "StatsArray_default = \<lparr>data = [], used = 0, cap = 0\<rparr>"

text \<open>\<^verbatim>\<open>explicit StatsArray(size_t cap0)\<close>.\<close>

definition StatsArray_cap0 :: "nat \<Rightarrow> StatsArray" where
  "StatsArray_cap0 cap0 =
     \<lparr>data = replicate (if cap0 > 0 then cap0 else 8) 0,
      used = 0,
      cap = (if cap0 > 0 then cap0 else 8)\<rparr>"

definition size_sa :: "StatsArray \<Rightarrow> nat" where
  "size_sa b = used b"

definition capacity :: "StatsArray \<Rightarrow> nat" where
  "capacity b = cap b"

definition at_sa :: "nat \<Rightarrow> StatsArray \<Rightarrow> error + real" where
  "at_sa idx b = (if idx < used b then Inr (data b ! idx) else Inl AssertionFailed)"

definition clear :: "StatsArray \<Rightarrow> StatsArray" where
  "clear b = b\<lparr>used := 0\<rparr>"

text \<open>The active elements \<open>_data[0 .. _used)\<close>.\<close>

definition elements :: "StatsArray \<Rightarrow> real list" where
  "elements b = take (used b) (data b)"

text \<open>The representation invariant of the class: the backing store has \<open>_cap\<close> slots,
  of which the first \<open>_used\<close> are in use.\<close>

definition valid :: "StatsArray \<Rightarrow> bool" where
  "valid b \<longleftrightarrow> length (data b) = cap b \<and> used b \<le> cap b"

subsection \<open>Private helpers\<close>

text \<open>\<^verbatim>\<open>lowerBound\<close>: the loop \<^verbatim>\<open>while (L < R) { M = (L + R) / 2; ... }\<close>.\<close>

function lowerBound_loop :: "real list \<Rightarrow> real \<Rightarrow> nat \<Rightarrow> nat \<Rightarrow> nat" where
  "lowerBound_loop d x L R =
     (if L < R then
        (let M = (L + R) div 2 in
         if d ! M < x then lowerBound_loop d x (M + 1) R
         else lowerBound_loop d x L M)
      else L)"
  by pat_completeness auto
termination
  by (relation "measure (\<lambda>(d, x, L, R). R - L)") auto

declare lowerBound_loop.simps [simp del]

definition lowerBound :: "real \<Rightarrow> StatsArray \<Rightarrow> nat" where
  "lowerBound x b = lowerBound_loop (data b) x 0 (used b)"

text \<open>\<^verbatim>\<open>growIfNeeded\<close>: \<^verbatim>\<open>memcpy\<close> of the \<open>_used\<close> elements into the new store.\<close>

definition growIfNeeded :: "StatsArray \<Rightarrow> StatsArray" where
  "growIfNeeded b =
     (if used b < cap b then b
      else
        (let newCap = (if cap b = 0 then 8 else cap b * 2);
             nd = take (used b) (data b) @ replicate (newCap - used b) 0
         in b\<lparr>data := nd, cap := newCap\<rparr>))"

text \<open>\<^verbatim>\<open>memmove(&d[dst], &d[src], n * sizeof(double))\<close>: the \<open>n\<close> slots from \<open>src\<close> are
  copied, as if through a temporary, onto the \<open>n\<close> slots from \<open>dst\<close>.\<close>

definition memmove :: "real list \<Rightarrow> nat \<Rightarrow> nat \<Rightarrow> nat \<Rightarrow> real list" where
  "memmove d dst src n = take dst d @ take n (drop src d) @ drop (dst + n) d"

definition insertAt :: "nat \<Rightarrow> real \<Rightarrow> StatsArray \<Rightarrow> error + StatsArray" where
  "insertAt pos x b =
     (if \<not> pos \<le> used b then Inl AssertionFailed
      else
        (let b1 = growIfNeeded b;
             tail = used b1 - pos;
             d1 = (if tail \<noteq> 0 then memmove (data b1) (pos + 1) pos tail else data b1)
         in Inr (b1\<lparr>data := d1[pos := x], used := used b1 + 1\<rparr>)))"

text \<open>The shifting loop of \<^verbatim>\<open>eraseValue\<close> and \<^verbatim>\<open>eraseAt\<close>:
  \<^verbatim>\<open>for (i = ...; i < _used; ++i) _data[i - 1] = _data[i];\<close>\<close>

function shift_loop :: "real list \<Rightarrow> nat \<Rightarrow> nat \<Rightarrow> real list" where
  "shift_loop d i u = (if i < u then shift_loop (d[i - 1 := d ! i]) (i + 1) u else d)"
  by pat_completeness auto
termination
  by (relation "measure (\<lambda>(d, i, u). u - i)") auto

declare shift_loop.simps [simp del]

subsection \<open>Modifiers\<close>

definition insert_sa :: "real \<Rightarrow> StatsArray \<Rightarrow> error + StatsArray" where
  "insert_sa x b = (let pos = lowerBound x b in insertAt pos x b)"

function eraseValue_loop :: "real \<Rightarrow> nat \<Rightarrow> nat \<Rightarrow> StatsArray \<Rightarrow> nat \<Rightarrow> StatsArray \<times> nat" where
  "eraseValue_loop v cnt pos b removed =
     (if pos < used b \<and> data b ! pos = v \<and> removed < cnt then
        eraseValue_loop v cnt pos
          (b\<lparr>data := shift_loop (data b) (pos + 1) (used b), used := used b - 1\<rparr>)
          (removed + 1)
      else (b, removed))"
  by pat_completeness auto
termination
  by (relation "measure (\<lambda>(v, cnt, pos, b, removed). used b)") auto

declare eraseValue_loop.simps [simp del]

definition eraseValue :: "real \<Rightarrow> nat \<Rightarrow> StatsArray \<Rightarrow> error + StatsArray \<times> nat" where
  "eraseValue v cnt b =
     (if \<not> cnt \<ge> 1 then Inl AssertionFailed
      else Inr (eraseValue_loop v cnt (lowerBound v b) b 0))"

definition eraseAt :: "nat \<Rightarrow> StatsArray \<Rightarrow> error + StatsArray" where
  "eraseAt idx b =
     (if \<not> idx < used b then Inl AssertionFailed
      else Inr (b\<lparr>data := shift_loop (data b) (idx + 1) (used b), used := used b - 1\<rparr>))"

subsection \<open>Sequences of calls\<close>

text \<open>A caller drives the container through its three modifiers. \<open>run\<close> performs a
  list of calls from left to right and stops at the first failing assertion.\<close>

datatype op = Insert real | EraseValue real nat | EraseAt nat

fun apply_op :: "op \<Rightarrow> StatsArray \<Rightarrow> error + StatsArray" where
  "apply_op (Insert x) b = insert_sa x b"
| "apply_op (EraseValue v cnt) b =
     (case eraseValue v cnt b of Inl e \<Rightarrow> Inl e | Inr (b', removed) \<Rightarrow> Inr b')"
| "apply_op (EraseAt idx) b = eraseAt idx b"

fun run :: "op list \<Rightarrow> StatsArray \<Rightarrow> error + StatsArray" where
  "run [] b = Inr b"
| "run (c # cs) b = (case apply_op c b of Inl e \<Rightarrow> Inl e | Inr b' \<Rightarrow> run cs b')"

text \<open>The documented precondition of a call (\<^verbatim>\<open>Pre:\<close> in the source), in the
  state in which it is made.\<close>

fun pre :: "op \<Rightarrow> StatsArray \<Rightarrow> bool" where
  "pre (Insert x) b \<longleftrightarrow> True"
| "pre (EraseValue v cnt) b \<longleftrightarrow> cnt \<ge> 1"
| "pre (EraseAt idx) b \<longleftrightarrow> idx < used b"

subsection \<open>Floating-point arithmetic\<close>

text \<open>A floating-point value: a finite number, an infinity or a NaN. The two zeros are
  one value, \<open>Fin 0\<close>, and it behaves as \<open>+0\<close>.\<close>

datatype fp = Fin real | PInf | NInf | NaN

text \<open>Rounding to the nearest integer, ties to the even one.\<close>

definition ties_even :: "real \<Rightarrow> int" where
  "ties_even q =
     (let f = \<lfloor>q\<rfloor>; r = q - of_int f
      in if r < 1 / 2 then f else if r > 1 / 2 then f + 1
         else if even f then f else f + 1)"

text \<open>IEEE 754 round-to-nearest-even into the binary format with \<open>p\<close> significand bits
  and largest exponent \<open>E\<close> (smallest normal exponent \<open>1 - E\<close>, gradual underflow): the
  result is the multiple of the quantum of \<open>x\<close> nearest to \<open>x\<close>, and an infinity
  when that multiple is beyond the largest finite number.\<close>

definition quantum :: "nat \<Rightarrow> int \<Rightarrow> real \<Rightarrow> real" where
  "quantum p E x = 2 powr real_of_int (max \<lfloor>log 2 \<bar>x\<bar>\<rfloor> (1 - E) - (int p - 1))"

definition rnd :: "nat \<Rightarrow> int \<Rightarrow> real \<Rightarrow> fp" where
  "rnd p E x =
     (if x = 0 then Fin 0
      else
        (let q = quantum p E x; y = real_of_int (ties_even (x / q)) * q
         in if \<bar>y\<bar> \<ge> 2 powr real_of_int (E + 1) then (if x > 0 then PInf else NInf)
            else Fin y))"

text \<open>\<^verbatim>\<open>double\<close> is binary64; \<^verbatim>\<open>long double\<close> is the x87 extended format.\<close>

definition rd :: "real \<Rightarrow> fp" where
  "rd = rnd 53 1023"

definition rl :: "real \<Rightarrow> fp" where
  "rl = rnd 64 16383"

text \<open>The operations, each with the rounding \<open>r\<close> of the type it is computed in.\<close>

fun fsgn :: "fp \<Rightarrow> int" where
  "fsgn (Fin x) = (if x > 0 then 1 else if x < 0 then - 1 else 0)"
| "fsgn PInf = 1"
| "fsgn NInf = - 1"
| "fsgn NaN = 0"

fun fneg :: "fp \<Rightarrow> fp" where
  "fneg (Fin x) = Fin (- x)"
| "fneg PInf = NInf"
| "fneg NInf = PInf"
| "fneg NaN = NaN"

fun fabs :: "fp \<Rightarrow> fp" where
  "fabs (Fin x) = Fin \<bar>x\<bar>"
| "fabs PInf = PInf"
| "fabs NInf = PInf"
| "fabs NaN = NaN"

fun fadd :: "(real \<Rightarrow> fp) \<Rightarrow> fp \<Rightarrow> fp \<Rightarrow> fp" where
  "fadd r (Fin x) (Fin y) = r (x + y)"
| "fadd r NaN b = NaN"
| "fadd r a NaN = NaN"
| "fadd r PInf NInf = NaN"
| "fadd r NInf PInf = NaN"
| "fadd r PInf b = PInf"
| "fadd r NInf b = NInf"
| "fadd r a PInf = PInf"
| "fadd r a NInf = NInf"

definition fsub :: "(real \<Rightarrow> fp) \<Rightarrow> fp \<Rightarrow> fp \<Rightarrow> fp" where
  "fsub r a b = fadd r a (fneg b)"

fun fmul :: "(real \<Rightarrow> fp) \<Rightarrow> fp \<Rightarrow> fp \<Rightarrow> fp" where
  "fmul r (Fin x) (Fin y) = r (x * y)"
| "fmul r NaN b = NaN"
| "fmul r a NaN = NaN"
| "fmul r a b =
     (if fsgn a * fsgn b = 0 then NaN else if fsgn a * fsgn b > 0 then PInf else NInf)"

fun fdiv :: "(real \<Rightarrow> fp) \<Rightarrow> fp \<Rightarrow> fp \<Rightarrow> fp" where
  "fdiv r (Fin x) (Fin y) =
     (if y = 0 then (if x = 0 then NaN else if x > 0 then PInf else NInf)
      else r (x / y))"
| "fdiv r NaN b = NaN"
| "fdiv r a NaN = NaN"
| "fdiv r (Fin x) b = Fin 0"
| "fdiv r a (Fin y) = (if fsgn a * (if y < 0 then - 1 else 1) > 0 then PInf else NInf)"
| "fdiv r a b = NaN"

fun fsqrt :: "(real \<Rightarrow> fp) \<Rightarrow> fp \<Rightarrow> fp" where
  "fsqrt r (Fin x) = (if x < 0 then NaN else r (sqrt x))"
| "fsqrt r PInf = PInf"
| "fsqrt r NInf = NaN"
| "fsqrt r NaN = NaN"

text \<open>The comparisons \<^verbatim>\<open>==\<close>, \<^verbatim>\<open><\<close> and \<^verbatim>\<open><=\<close>; each is false when an operand is a NaN.\<close>

fun feq :: "fp \<Rightarrow> fp \<Rightarrow> bool" where
  "feq (Fin x) (Fin y) \<longleftrightarrow> x = y"
| "feq PInf PInf \<longleftrightarrow> True"
| "feq NInf NInf \<longleftrightarrow> True"
| "feq a b \<longleftrightarrow> False"

fun flt :: "fp \<Rightarrow> fp \<Rightarrow> bool" where
  "flt (Fin x) (Fin y) \<longleftrightarrow> x < y"
| "flt NaN b \<longleftrightarrow> False"
| "flt a NaN \<longleftrightarrow> False"
| "flt a NInf \<longleftrightarrow> False"
| "flt PInf b \<longleftrightarrow> False"
| "flt a b \<longleftrightarrow> True"

definition fle :: "fp \<Rightarrow> fp \<Rightarrow> bool" where
  "fle a b \<longleftrightarrow> flt a b \<or> feq a b"

fun isfinite :: "fp \<Rightarrow> bool" where
  "isfinite (Fin x) \<longleftrightarrow> True"
| "isfinite a \<longleftrightarrow> False"

text \<open>The conversion \<^verbatim>\<open>(double)\<close> of a \<^verbatim>\<open>long double\<close>. The conversion of a \<^verbatim>\<open>double\<close> to
  \<^verbatim>\<open>long double\<close> is exact and is not written.\<close>

fun to_double :: "fp \<Rightarrow> fp" where
  "to_double (Fin x) = rd x"
| "to_double a = a"

text \<open>The operations of the two types.\<close>

definition dadd :: "fp \<Rightarrow> fp \<Rightarrow> fp" where "dadd = fadd rd"
definition dsub :: "fp \<Rightarrow> fp \<Rightarrow> fp" where "dsub = fsub rd"
definition dmul :: "fp \<Rightarrow> fp \<Rightarrow> fp" where "dmul = fmul rd"
definition ddiv :: "fp \<Rightarrow> fp \<Rightarrow> fp" where "ddiv = fdiv rd"
definition dsqrt :: "fp \<Rightarrow> fp" where "dsqrt = fsqrt rd"

definition ladd :: "fp \<Rightarrow> fp \<Rightarrow> fp" where "ladd = fadd rl"
definition lsub :: "fp \<Rightarrow> fp \<Rightarrow> fp" where "lsub = fsub rl"
definition lmul :: "fp \<Rightarrow> fp \<Rightarrow> fp" where "lmul = fmul rl"
definition ldiv :: "fp \<Rightarrow> fp \<Rightarrow> fp" where "ldiv = fdiv rl"
definition lsqrt :: "fp \<Rightarrow> fp" where "lsqrt = fsqrt rl"

subsection \<open>Size checks\<close>

text \<open>\<^verbatim>\<open>std::to_string\<close> on a \<^verbatim>\<open>size_t\<close>: the decimal digits.\<close>

definition digit :: "nat \<Rightarrow> char" where
  "digit n = ''0123456789'' ! n"

function to_string :: "nat \<Rightarrow> string" where
  "to_string n = (if n < 10 then [digit n] else to_string (n div 10) @ [digit (n mod 10)])"
  by pat_completeness auto
termination
  by (relation "measure (\<lambda>n. n)") auto

declare to_string.simps [simp del]

text \<open>\<^verbatim>\<open>requireSize\<close> returns nothing; it is modelled by the exception it throws, if
  any.\<close>

definition requireSize :: "nat \<Rightarrow> string \<Rightarrow> StatsArray \<Rightarrow> error option" where
  "requireSize need what b =
     (if used b = 0 then Some (DatasetEmptyException ''Dataset is empty.'')
      else if used b < need then
        Some (InsufficientDataException
                (what @ '' requires at least '' @ to_string need @ '' value(s).''))
      else None)"

subsection \<open>Loops of the statistics\<close>

text \<open>\<^verbatim>\<open>for (size_t i = i0; i < n; ++i) body\<close>, on the variables \<open>s\<close> that the body
  updates.\<close>

function for_loop :: "nat \<Rightarrow> nat \<Rightarrow> (nat \<Rightarrow> 's \<Rightarrow> 's) \<Rightarrow> 's \<Rightarrow> 's" where
  "for_loop i n body s = (if i < n then for_loop (i + 1) n body (body i s) else s)"
  by pat_completeness auto
termination
  by (relation "measure (\<lambda>(i, n, body, s). n - i)") auto

declare for_loop.simps [simp del]

text \<open>The inner loop of \<^verbatim>\<open>modes\<close> and \<^verbatim>\<open>frequencyTable\<close>:
  \<^verbatim>\<open>while (j < _used && _data[j] == _data[i]) ++j;\<close>\<close>

function run_end :: "real list \<Rightarrow> nat \<Rightarrow> nat \<Rightarrow> nat \<Rightarrow> nat" where
  "run_end d u i j = (if j < u \<and> d ! j = d ! i then run_end d u i (j + 1) else j)"
  by pat_completeness auto
termination
  by (relation "measure (\<lambda>(d, u, i, j). u - j)") auto

declare run_end.simps [simp del]

text \<open>The first outer loop of \<^verbatim>\<open>modes\<close>: the longest run.\<close>

function modes_best :: "real list \<Rightarrow> nat \<Rightarrow> nat \<Rightarrow> nat \<Rightarrow> nat" where
  "modes_best d u i best =
     (if i < u then
        (let j = run_end d u i (i + 1)
         in modes_best d u j (if j - i > best then j - i else best))
      else best)"
  by pat_completeness auto
termination
proof (relation "measure (\<lambda>(d, u, i, best). u - i)")
  show "wf (measure (\<lambda>(d, u, i, best). u - i))" by simp
next
  fix d :: "real list" and u i best j :: nat
  assume iu: "i < u" and j: "j = run_end d u i (i + 1)"
  have "k \<le> run_end d u i k" for k
  proof (induction d u i k rule: run_end.induct)
    case (1 d u i k)
    show ?case
    proof (cases "k < u \<and> d ! k = d ! i")
      case True
      then have "run_end d u i k = run_end d u i (k + 1)"
        by (subst run_end.simps) simp
      with "1.IH"[OF True] show ?thesis by simp
    next
      case False
      then have "run_end d u i k = k" by (subst run_end.simps) auto
      then show ?thesis by simp
    qed
  qed
  from this[of "i + 1"] iu j
  show "((d, u, j, if best < j - i then j - i else best), d, u, i, best)
          \<in> measure (\<lambda>(d, u, i, best). u - i)"
    by simp
qed

declare modes_best.simps [simp del]

text \<open>The second outer loop of \<^verbatim>\<open>modes\<close>: the values of the runs of that length.\<close>

function modes_collect :: "real list \<Rightarrow> nat \<Rightarrow> nat \<Rightarrow> nat \<Rightarrow> real list \<Rightarrow> real list" where
  "modes_collect d u best i res =
     (if i < u then
        (let j = run_end d u i (i + 1)
         in modes_collect d u best j (if j - i = best then res @ [d ! i] else res))
      else res)"
  by pat_completeness auto
termination
proof (relation "measure (\<lambda>(d, u, best, i, res). u - i)")
  show "wf (measure (\<lambda>(d, u, best, i, res). u - i))" by simp
next
  fix d res :: "real list" and u i best j :: nat
  assume iu: "i < u" and j: "j = run_end d u i (i + 1)"
  have "k \<le> run_end d u i k" for k
  proof (induction d u i k rule: run_end.induct)
    case (1 d u i k)
    show ?case
    proof (cases "k < u \<and> d ! k = d ! i")
      case True
      then have "run_end d u i k = run_end d u i (k + 1)"
        by (subst run_end.simps) simp
      with "1.IH"[OF True] show ?thesis by simp
    next
      case False
      then have "run_end d u i k = k" by (subst run_end.simps) auto
      then show ?thesis by simp
    qed
  qed
  from this[of "i + 1"] iu j
  show "((d, u, best, j, if j - i = best then res @ [d ! i] else res), d, u, best, i, res)
          \<in> measure (\<lambda>(d, u, best, i, res). u - i)"
    by simp
qed

declare modes_collect.simps [simp del]

text \<open>The loop of \<^verbatim>\<open>frequencyTable\<close>.\<close>

function frequencyTable_loop ::
  "real list \<Rightarrow> nat \<Rightarrow> nat \<Rightarrow> (real \<times> nat) list \<Rightarrow> (real \<times> nat) list" where
  "frequencyTable_loop d u i ft =
     (if i < u then
        (let j = run_end d u i (i + 1)
         in frequencyTable_loop d u j (ft @ [(d ! i, j - i)]))
      else ft)"
  by pat_completeness auto
termination
proof (relation "measure (\<lambda>(d, u, i, ft). u - i)")
  show "wf (measure (\<lambda>(d, u, i, ft). u - i))" by simp
next
  fix d :: "real list" and ft :: "(real \<times> nat) list" and u i j :: nat
  assume iu: "i < u" and j: "j = run_end d u i (i + 1)"
  have "k \<le> run_end d u i k" for k
  proof (induction d u i k rule: run_end.induct)
    case (1 d u i k)
    show ?case
    proof (cases "k < u \<and> d ! k = d ! i")
      case True
      then have "run_end d u i k = run_end d u i (k + 1)"
        by (subst run_end.simps) simp
      with "1.IH"[OF True] show ?thesis by simp
    next
      case False
      then have "run_end d u i k = k" by (subst run_end.simps) auto
      then show ?thesis by simp
    qed
  qed
  from this[of "i + 1"] iu j
  show "((d, u, j, ft @ [(d ! i, j - i)]), d, u, i, ft) \<in> measure (\<lambda>(d, u, i, ft). u - i)"
    by simp
qed

declare frequencyTable_loop.simps [simp del]

subsection \<open>Statistics\<close>

text \<open>An element \<open>_data[i]\<close> is read as the value \<open>Fin (data b ! i)\<close>; a \<^verbatim>\<open>size_t\<close> is
  converted with the rounding of the target type; the literals \<^verbatim>\<open>1e-12\<close> and
  \<^verbatim>\<open>1e-12L\<close> are the roundings of \<open>10\<^sup>-\<^sup>1\<^sup>2\<close>, the other literals are exact. An
  expression is evaluated in \<^verbatim>\<open>long double\<close> as soon as one operand is a
  \<^verbatim>\<open>long double\<close>, as C++ converts it.\<close>

definition min_sa :: "StatsArray \<Rightarrow> error + real" where
  "min_sa b =
     (case requireSize 1 ''Minimum'' b of Some e \<Rightarrow> Inl e
      | None \<Rightarrow> Inr (data b ! 0))"

definition max_sa :: "StatsArray \<Rightarrow> error + real" where
  "max_sa b =
     (case requireSize 1 ''Maximum'' b of Some e \<Rightarrow> Inl e
      | None \<Rightarrow> Inr (data b ! (used b - 1)))"

definition range_sa :: "StatsArray \<Rightarrow> error + fp" where
  "range_sa b =
     (case requireSize 1 ''Range'' b of Some e \<Rightarrow> Inl e
      | None \<Rightarrow> Inr (dsub (Fin (data b ! (used b - 1))) (Fin (data b ! 0))))"

definition sum_sa :: "StatsArray \<Rightarrow> error + fp" where
  "sum_sa b =
     (case requireSize 1 ''Sum'' b of Some e \<Rightarrow> Inl e
      | None \<Rightarrow>
         (let s = for_loop 0 (used b) (\<lambda>i s. ladd s (Fin (data b ! i))) (Fin 0)
          in Inr (to_double s)))"

definition mean :: "StatsArray \<Rightarrow> error + fp" where
  "mean b =
     (case requireSize 1 ''Mean'' b of Some e \<Rightarrow> Inl e
      | None \<Rightarrow>
         (case sum_sa b of Inl e \<Rightarrow> Inl e
          | Inr s \<Rightarrow> Inr (ddiv s (rd (real (used b))))))"

definition median :: "StatsArray \<Rightarrow> error + fp" where
  "median b =
     (case requireSize 1 ''Median'' b of Some e \<Rightarrow> Inl e
      | None \<Rightarrow>
         (let n = used b; m = n div 2
          in Inr (if n mod 2 \<noteq> 0 then Fin (data b ! m)
                  else ddiv (dadd (Fin (data b ! (m - 1))) (Fin (data b ! m))) (Fin 2))))"

definition modes :: "StatsArray \<Rightarrow> error + real list" where
  "modes b =
     (case requireSize 1 ''Mode(s)'' b of Some e \<Rightarrow> Inl e
      | None \<Rightarrow>
         (let best = modes_best (data b) (used b) 0 0
          in if best \<le> 1 then Inr []
             else Inr (modes_collect (data b) (used b) best 0 [])))"

definition variance :: "bool \<Rightarrow> StatsArray \<Rightarrow> error + fp" where
  "variance sample b =
     (case (if sample then requireSize 2 ''Variance (sample)'' b
            else requireSize 1 ''Variance (population)'' b) of
        Some e \<Rightarrow> Inl e
      | None \<Rightarrow>
         (case mean b of Inl e \<Rightarrow> Inl e
          | Inr mu \<Rightarrow>
             (let ss = for_loop 0 (used b)
                         (\<lambda>i ss. let d = lsub (Fin (data b ! i)) mu in ladd ss (lmul d d))
                         (Fin 0);
                  denom = (if sample then rl (real (used b - 1)) else rl (real (used b)));
                  ans = (if flt (Fin 0) denom then ldiv ss denom else Fin 0)
              in if \<not> isfinite (to_double ans) then Inl AssertionFailed
                 else if \<not> fle (fneg (rl (1 / 10 ^ 12))) ans then Inl AssertionFailed
                 else if \<not> sample \<and> used b = 1 \<and> \<not> feq ans (Fin 0) then Inl AssertionFailed
                 else Inr (to_double ans))))"

definition stdev :: "bool \<Rightarrow> StatsArray \<Rightarrow> error + fp" where
  "stdev sample b =
     (case variance sample b of Inl e \<Rightarrow> Inl e | Inr v \<Rightarrow> Inr (dsqrt v))"

definition midrange :: "StatsArray \<Rightarrow> error + fp" where
  "midrange b =
     (case requireSize 1 ''Midrange'' b of Some e \<Rightarrow> Inl e
      | None \<Rightarrow>
         (case min_sa b of Inl e \<Rightarrow> Inl e
          | Inr lo \<Rightarrow>
             (case max_sa b of Inl e \<Rightarrow> Inl e
              | Inr hi \<Rightarrow> Inr (ddiv (dadd (Fin lo) (Fin hi)) (Fin 2)))))"

text \<open>The local helper \<^verbatim>\<open>H::subMed(a, L, R)\<close> of \<^verbatim>\<open>quartiles\<close>: the median of the
  slots \<open>L .. R\<close>, both included.\<close>

definition subMed :: "real list \<Rightarrow> nat \<Rightarrow> nat \<Rightarrow> fp" where
  "subMed a L R =
     (let len = R - L + 1; mid = L + len div 2
      in if len mod 2 \<noteq> 0 then Fin (a ! mid)
         else ddiv (dadd (Fin (a ! (mid - 1))) (Fin (a ! mid))) (Fin 2))"

definition quartiles :: "StatsArray \<Rightarrow> error + fp \<times> fp \<times> fp" where
  "quartiles b =
     (case requireSize 2 ''Quartiles'' b of Some e \<Rightarrow> Inl e
      | None \<Rightarrow>
         (case median b of Inl e \<Rightarrow> Inl e
          | Inr q2 \<Rightarrow>
             (let n = used b; m = n div 2;
                  (q1, q3) =
                     (if n mod 2 = 0 then (subMed (data b) 0 (m - 1), subMed (data b) m (n - 1))
                      else (subMed (data b) 0 (m - 1), subMed (data b) (m + 1) (n - 1)))
              in if \<not> (fle q1 (dadd q2 (rd (1 / 10 ^ 12))) \<and>
                        fle q2 (dadd q3 (rd (1 / 10 ^ 12)))) then Inl AssertionFailed
                 else if \<not> (fle (dsub (Fin (data b ! 0)) (rd (1 / 10 ^ 12))) q1 \<and>
                             fle q3 (dadd (Fin (data b ! (used b - 1))) (rd (1 / 10 ^ 12))))
                   then Inl AssertionFailed
                 else Inr (q1, q2, q3))))"

definition iqr :: "StatsArray \<Rightarrow> error + fp" where
  "iqr b =
     (case requireSize 2 ''Interquartile Range'' b of Some e \<Rightarrow> Inl e
      | None \<Rightarrow>
         (case quartiles b of Inl e \<Rightarrow> Inl e
          | Inr (q1, q2, q3) \<Rightarrow> Inr (dsub q3 q1)))"

definition outliers :: "StatsArray \<Rightarrow> error + real list" where
  "outliers b =
     (case requireSize 2 ''Outliers'' b of Some e \<Rightarrow> Inl e
      | None \<Rightarrow>
         (case quartiles b of Inl e \<Rightarrow> Inl e
          | Inr (q1, q2, q3) \<Rightarrow>
             (let w = dmul (Fin (3 / 2)) (dsub q3 q1); lo = dsub q1 w; hi = dadd q3 w
              in Inr (for_loop 0 (used b)
                        (\<lambda>i res. if flt (Fin (data b ! i)) lo \<or> flt hi (Fin (data b ! i))
                                  then res @ [data b ! i] else res) []))))"

definition sumSquares :: "StatsArray \<Rightarrow> error + fp" where
  "sumSquares b =
     (case requireSize 1 ''Sum of Squares'' b of Some e \<Rightarrow> Inl e
      | None \<Rightarrow>
         (let s = for_loop 0 (used b)
                    (\<lambda>i s. ladd s (lmul (Fin (data b ! i)) (Fin (data b ! i)))) (Fin 0)
          in Inr (to_double s)))"

definition meanAbsDeviation :: "StatsArray \<Rightarrow> error + fp" where
  "meanAbsDeviation b =
     (case requireSize 1 ''Mean Absolute Deviation'' b of Some e \<Rightarrow> Inl e
      | None \<Rightarrow>
         (case mean b of Inl e \<Rightarrow> Inl e
          | Inr mu \<Rightarrow>
             (let s = for_loop 0 (used b)
                        (\<lambda>i s. ladd s (fabs (lsub (Fin (data b ! i)) mu))) (Fin 0)
              in Inr (to_double (ldiv s (rl (real (used b))))))))"

definition rms :: "StatsArray \<Rightarrow> error + fp" where
  "rms b =
     (case requireSize 1 ''Root Mean Square'' b of Some e \<Rightarrow> Inl e
      | None \<Rightarrow>
         (case sumSquares b of Inl e \<Rightarrow> Inl e
          | Inr s \<Rightarrow> Inr (dsqrt (ddiv s (rd (real (used b)))))))"

definition sem :: "bool \<Rightarrow> StatsArray \<Rightarrow> error + fp" where
  "sem sample b =
     (case (if sample then requireSize 2 ''Standard Error of Mean (sample)'' b
            else requireSize 1 ''Standard Error of Mean (population)'' b) of
        Some e \<Rightarrow> Inl e
      | None \<Rightarrow>
         (case stdev sample b of Inl e \<Rightarrow> Inl e
          | Inr sd \<Rightarrow> Inr (ddiv sd (dsqrt (rd (real (used b)))))))"

text \<open>The accumulators \<open>m2\<close> and \<open>m3\<close> of \<^verbatim>\<open>skewness\<close> are the pair that its loop
  updates.\<close>

definition skewness :: "bool \<Rightarrow> StatsArray \<Rightarrow> error + fp" where
  "skewness sample b =
     (case (if sample then requireSize 3 ''Skewness (sample)'' b
            else requireSize 1 ''Skewness (population)'' b) of
        Some e \<Rightarrow> Inl e
      | None \<Rightarrow>
         (case mean b of Inl e \<Rightarrow> Inl e
          | Inr mu \<Rightarrow>
             (let (m2, m3) = for_loop 0 (used b)
                     (\<lambda>i (m2, m3). let d = lsub (Fin (data b ! i)) mu
                                   in (ladd m2 (lmul d d), ladd m3 (lmul (lmul d d) d)))
                     (Fin 0, Fin 0);
                  n = rl (real (used b))
              in if sample then
                   (let s2 = ldiv m2 (lsub n (Fin 1)); s = lsqrt s2;
                        g1 = ldiv (ldiv m3 n) (lmul (lmul s s) s)
                    in Inr (to_double
                              (lmul (ldiv (lsqrt (lmul n (lsub n (Fin 1)))) (lsub n (Fin 2))) g1)))
                 else
                   (let s2 = ldiv m2 n; s = lsqrt s2
                    in Inr (to_double (ldiv (ldiv m3 n) (lmul (lmul s s) s)))))))"

definition kurtosis :: "StatsArray \<Rightarrow> error + fp" where
  "kurtosis b =
     (case requireSize 4 ''Kurtosis Excel term1'' b of Some e \<Rightarrow> Inl e
      | None \<Rightarrow>
         (let n = rl (real (used b)) in
          case mean b of Inl e \<Rightarrow> Inl e
          | Inr mu \<Rightarrow>
             (let s2 = for_loop 0 (used b)
                         (\<lambda>i s2. let d = lsub (Fin (data b ! i)) mu in ladd s2 (lmul d d))
                         (Fin 0);
                  s = lsqrt (ldiv s2 (lsub n (Fin 1)))
              in if feq s (Fin 0) then Inr (Fin 0)
                 else
                   (let sumZ4 = for_loop 0 (used b)
                          (\<lambda>i sumZ4. let z = ldiv (lsub (Fin (data b ! i)) mu) s
                                      in ladd sumZ4 (lmul (lmul (lmul z z) z) z))
                          (Fin 0);
                        term1 = lmul (ldiv (lmul n (ladd n (Fin 1)))
                                           (lmul (lmul (lsub n (Fin 1)) (lsub n (Fin 2)))
                                                 (lsub n (Fin 3))))
                                     sumZ4
                    in Inr (to_double term1)))))"

definition kurtosisExcess :: "StatsArray \<Rightarrow> error + fp" where
  "kurtosisExcess b =
     (case requireSize 4 ''Kurtosis Excess Excel'' b of Some e \<Rightarrow> Inl e
      | None \<Rightarrow>
         (let n = rl (real (used b)) in
          case mean b of Inl e \<Rightarrow> Inl e
          | Inr mu \<Rightarrow>
             (let s2 = for_loop 0 (used b)
                         (\<lambda>i s2. let d = lsub (Fin (data b ! i)) mu in ladd s2 (lmul d d))
                         (Fin 0);
                  s = lsqrt (ldiv s2 (lsub n (Fin 1)))
              in if feq s (Fin 0) then Inr (Fin 0)
                 else
                   (let sumZ4 = for_loop 0 (used b)
                          (\<lambda>i sumZ4. let z = ldiv (lsub (Fin (data b ! i)) mu) s
                                      in ladd sumZ4 (lmul (lmul (lmul z z) z) z))
                          (Fin 0);
                        term1 = lmul (ldiv (lmul n (ladd n (Fin 1)))
                                           (lmul (lmul (lsub n (Fin 1)) (lsub n (Fin 2)))
                                                 (lsub n (Fin 3))))
                                     sumZ4;
                        term2 = ldiv (lmul (lmul (Fin 3) (lsub n (Fin 1))) (lsub n (Fin 1)))
                                     (lmul (lsub n (Fin 2)) (lsub n (Fin 3)))
                    in Inr (to_double (lsub term1 term2))))))"

definition coefficientOfVariation :: "bool \<Rightarrow> StatsArray \<Rightarrow> error + fp" where
  "coefficientOfVariation sample b =
     (case requireSize 1 ''Coefficient of Variation'' b of Some e \<Rightarrow> Inl e
      | None \<Rightarrow>
         (case mean b of Inl e \<Rightarrow> Inl e
          | Inr mu \<Rightarrow>
             if feq mu (Fin 0) then
               Inl (InsufficientDataException
                      ''Coefficient of Variation undefined when mean is 0.'')
             else
               (case stdev sample b of Inl e \<Rightarrow> Inl e
                | Inr sd \<Rightarrow> Inr (ddiv sd mu))))"

definition relativeStdDeviation :: "bool \<Rightarrow> StatsArray \<Rightarrow> error + fp" where
  "relativeStdDeviation sample b =
     (case coefficientOfVariation sample b of Inl e \<Rightarrow> Inl e
      | Inr cv \<Rightarrow> Inr (dmul (Fin 100) cv))"

definition frequencyTable :: "StatsArray \<Rightarrow> error + (real \<times> nat) list" where
  "frequencyTable b =
     (case requireSize 1 ''Frequency Table'' b of Some e \<Rightarrow> Inl e
      | None \<Rightarrow> Inr (frequencyTable_loop (data b) (used b) 0 []))"

subsection \<open>The local variables of \<open>kurtosis\<close> and \<open>kurtosisExcess\<close>\<close>

text \<open>Both functions compute, with the same statements, the sample standard deviation
  \<open>s\<close> and the value \<open>term1\<close>; \<open>kurtosisExcess\<close> also computes \<open>term2\<close>. Here they
  are as functions of the buffer and of the value \<open>mu\<close> that \<open>mean()\<close> returned.\<close>

definition kurtosis_s :: "fp \<Rightarrow> StatsArray \<Rightarrow> fp" where
  "kurtosis_s mu b =
     (let n = rl (real (used b));
          s2 = for_loop 0 (used b)
                 (\<lambda>i s2. let d = lsub (Fin (data b ! i)) mu in ladd s2 (lmul d d))
                 (Fin 0)
      in lsqrt (ldiv s2 (lsub n (Fin 1))))"

definition kurtosis_term1 :: "fp \<Rightarrow> StatsArray \<Rightarrow> fp" where
  "kurtosis_term1 mu b =
     (let n = rl (real (used b));
          s = kurtosis_s mu b;
          sumZ4 = for_loop 0 (used b)
                    (\<lambda>i sumZ4. let z = ldiv (lsub (Fin (data b ! i)) mu) s
                                in ladd sumZ4 (lmul (lmul (lmul z z) z) z))
                    (Fin 0)
      in lmul (ldiv (lmul n (ladd n (Fin 1)))
                    (lmul (lmul (lsub n (Fin 1)) (lsub n (Fin 2))) (lsub n (Fin 3))))
              sumZ4)"

definition kurtosis_term2 :: "StatsArray \<Rightarrow> fp" where
  "kurtosis_term2 b =
     (let n = rl (real (used b))
      in ldiv (lmul (lmul (Fin 3) (lsub n (Fin 1))) (lsub n (Fin 1)))
              (lmul (lsub n (Fin 2)) (lsub n (Fin 3))))"

section \<open>Properties of the container\<close>

subsection \<open>Binary search\<close>

lemma lowerBound_loop_range:
  "L \<le> R \<Longrightarrow> L \<le> lowerBound_loop d x L R \<and> lowerBound_loop d x L R \<le> R"
proof (induction d x L R rule: lowerBound_loop.induct)
  case (1 d x L R)
  show ?case
  proof (cases "L < R")
    case False
    with "1.prems" show ?thesis by (simp add: lowerBound_loop.simps)
  next
    case True
    let ?M = "(L + R) div 2"
    have M: "L \<le> ?M" "?M < R" using True by auto
    show ?thesis
    proof (cases "d ! ?M < x")
      case lt: True
      have "?M + 1 \<le> lowerBound_loop d x (?M + 1) R \<and> lowerBound_loop d x (?M + 1) R \<le> R"
        using "1.IH"(1)[OF True refl lt] M by simp
      moreover have "lowerBound_loop d x L R = lowerBound_loop d x (?M + 1) R"
        using True lt by (subst lowerBound_loop.simps) (simp add: Let_def)
      ultimately show ?thesis using M by simp
    next
      case ge: False
      have "L \<le> lowerBound_loop d x L ?M \<and> lowerBound_loop d x L ?M \<le> ?M"
        using "1.IH"(2)[OF True refl ge] M by simp
      moreover have "lowerBound_loop d x L R = lowerBound_loop d x L ?M"
        using True ge by (subst lowerBound_loop.simps) (simp add: Let_def)
      ultimately show ?thesis using M by simp
    qed
  qed
qed

lemma lowerBound_loop_split:
  assumes "sorted (take u d)" "u \<le> length d" "L \<le> R" "R \<le> u"
    and "\<forall>i<L. d ! i < x" and "\<forall>i. R \<le> i \<and> i < u \<longrightarrow> x \<le> d ! i"
  shows "(\<forall>i < lowerBound_loop d x L R. d ! i < x) \<and>
         (\<forall>i. lowerBound_loop d x L R \<le> i \<and> i < u \<longrightarrow> x \<le> d ! i)"
  using assms
proof (induction d x L R rule: lowerBound_loop.induct)
  case (1 d x L R)
  have mono: "\<And>i j. i \<le> j \<Longrightarrow> j < u \<Longrightarrow> d ! i \<le> d ! j"
  proof -
    fix i j assume ij: "i \<le> j" "j < u"
    have "take u d ! i \<le> take u d ! j"
      using "1.prems"(1,2) ij by (intro sorted_nth_mono) auto
    then show "d ! i \<le> d ! j" using ij by simp
  qed
  show ?case
  proof (cases "L < R")
    case False
    with "1.prems" show ?thesis by (simp add: lowerBound_loop.simps)
  next
    case True
    let ?M = "(L + R) div 2"
    have M: "L \<le> ?M" "?M < R" using True by auto
    show ?thesis
    proof (cases "d ! ?M < x")
      case lt: True
      have below: "\<forall>i<?M + 1. d ! i < x"
      proof (intro allI impI)
        fix i assume "i < ?M + 1"
        then have "d ! i \<le> d ! ?M" using M "1.prems"(4) by (intro mono) auto
        with lt show "d ! i < x" by simp
      qed
      have eq: "lowerBound_loop d x L R = lowerBound_loop d x (?M + 1) R"
        using True lt by (subst lowerBound_loop.simps) (simp add: Let_def)
      show ?thesis unfolding eq
        using "1.IH"(1)[OF True refl lt "1.prems"(1,2) _ "1.prems"(4) below "1.prems"(6)] M
        by simp
    next
      case ge: False
      have above: "\<forall>i. ?M \<le> i \<and> i < u \<longrightarrow> x \<le> d ! i"
      proof (intro allI impI)
        fix i assume "?M \<le> i \<and> i < u"
        then have "d ! ?M \<le> d ! i" by (intro mono) auto
        with ge show "x \<le> d ! i" by simp
      qed
      have eq: "lowerBound_loop d x L R = lowerBound_loop d x L ?M"
        using True ge by (subst lowerBound_loop.simps) (simp add: Let_def)
      show ?thesis unfolding eq
        using "1.IH"(2)[OF True refl ge "1.prems"(1,2) _ _ "1.prems"(5) above] M "1.prems"(4)
        by simp
    qed
  qed
qed

subsection \<open>Shifting, growing and inserting\<close>

lemma shift_loop_length [simp]: "length (shift_loop d i u) = length d"
proof (induction d i u rule: shift_loop.induct)
  case (1 d i u)
  show ?case
  proof (cases "i < u")
    case True
    then have "shift_loop d i u = shift_loop (d[i - 1 := d ! i]) (i + 1) u"
      by (subst shift_loop.simps) simp
    with "1.IH"[OF True] show ?thesis by simp
  next
    case False
    then show ?thesis by (simp add: shift_loop.simps)
  qed
qed

lemma shift_loop_nth:
  "1 \<le> i \<Longrightarrow> u \<le> length d \<Longrightarrow> k < length d \<Longrightarrow>
   shift_loop d i u ! k = (if i - 1 \<le> k \<and> k < u - 1 then d ! (k + 1) else d ! k)"
proof (induction d i u arbitrary: k rule: shift_loop.induct)
  case (1 d i u)
  show ?case
  proof (cases "i < u")
    case False
    then show ?thesis by (auto simp add: shift_loop.simps)
  next
    case True
    let ?d = "d[i - 1 := d ! i]"
    have eq: "shift_loop d i u = shift_loop ?d (i + 1) u"
      using True by (subst shift_loop.simps) simp
    have "shift_loop ?d (i + 1) u ! k =
          (if i + 1 - 1 \<le> k \<and> k < u - 1 then ?d ! (k + 1) else ?d ! k)"
      using "1.IH"[OF True, of k] "1.prems" by simp
    also have "\<dots> = (if i - 1 \<le> k \<and> k < u - 1 then d ! (k + 1) else d ! k)"
      using "1.prems" True by (auto simp: nth_list_update)
    finally show ?thesis using eq by simp
  qed
qed

lemma shift_loop_take:
  assumes "idx < u" "u \<le> length d"
  shows "take (u - 1) (shift_loop d (idx + 1) u) = take idx (take u d) @ drop (idx + 1) (take u d)"
proof (rule nth_equalityI)
  show "length (take (u - 1) (shift_loop d (idx + 1) u)) =
        length (take idx (take u d) @ drop (idx + 1) (take u d))"
    using assms by auto
next
  fix k assume "k < length (take (u - 1) (shift_loop d (idx + 1) u))"
  then have k: "k < u - 1" "k < length d" using assms by auto
  have "take (u - 1) (shift_loop d (idx + 1) u) ! k = shift_loop d (idx + 1) u ! k"
    using k by simp
  also have "\<dots> = (if idx \<le> k then d ! (k + 1) else d ! k)"
    using shift_loop_nth[of "idx + 1" u d k] assms k by simp
  also have "\<dots> = (take idx (take u d) @ drop (idx + 1) (take u d)) ! k"
    using k assms by (auto simp: nth_append min_def)
  finally show "take (u - 1) (shift_loop d (idx + 1) u) ! k =
                (take idx (take u d) @ drop (idx + 1) (take u d)) ! k" .
qed

lemma growIfNeeded_elements [simp]: "valid b \<Longrightarrow> elements (growIfNeeded b) = elements b"
  by (auto simp: growIfNeeded_def elements_def valid_def Let_def)

lemma growIfNeeded_used [simp]: "used (growIfNeeded b) = used b"
  by (auto simp: growIfNeeded_def Let_def)

lemma growIfNeeded_valid: "valid b \<Longrightarrow> valid (growIfNeeded b) \<and> used (growIfNeeded b) < cap (growIfNeeded b)"
  by (auto simp: growIfNeeded_def valid_def Let_def)

lemma memmove_length: "dst + n \<le> length d \<Longrightarrow> src + n \<le> length d \<Longrightarrow> length (memmove d dst src n) = length d"
  by (simp add: memmove_def)

lemma memmove_nth:
  assumes "dst + n \<le> length d" "src + n \<le> length d" "k < length d"
  shows "memmove d dst src n ! k = (if dst \<le> k \<and> k < dst + n then d ! (src + (k - dst)) else d ! k)"
proof -
  define A where "A = take dst d"
  define B where "B = take n (drop src d)"
  define C where "C = drop (dst + n) d"
  have lA: "length A = dst" and lB: "length B = n"
    using assms by (auto simp: A_def B_def)
  have mm: "memmove d dst src n = A @ B @ C"
    by (simp add: memmove_def A_def B_def C_def)
  consider "k < dst" | "dst \<le> k" "k < dst + n" | "dst + n \<le> k" by linarith
  then show ?thesis
  proof cases
    case 1
    then have "(A @ B @ C) ! k = A ! k" by (simp add: nth_append lA)
    also have "\<dots> = d ! k" using 1 by (simp add: A_def)
    finally show ?thesis using 1 mm by simp
  next
    case 2
    then have kn: "k - dst < n" by linarith
    have "(A @ B @ C) ! k = B ! (k - dst)" using 2 kn by (simp add: nth_append lA lB)
    also have "\<dots> = d ! (src + (k - dst))"
      using kn assms by (simp add: B_def)
    finally show ?thesis using 2 mm by simp
  next
    case 3
    then have kn: "\<not> k - dst < n" "\<not> k < dst" by linarith+
    have "(A @ B @ C) ! k = C ! (k - dst - n)" using kn by (simp add: nth_append lA lB)
    also have "\<dots> = d ! (dst + n + (k - dst - n))"
      unfolding C_def using 3 assms by (subst nth_drop) simp_all
    also have "dst + n + (k - dst - n) = k" using 3 by simp
    finally show ?thesis using 3 mm by simp
  qed
qed

lemma insertAt_elements:
  assumes "valid b" "pos \<le> used b"
  shows "\<exists>b'. insertAt pos x b = Inr b' \<and> valid b' \<and> used b' = used b + 1 \<and> cap b' = cap (growIfNeeded b) \<and>
           elements b' = take pos (elements b) @ x # drop pos (elements b)"
proof -
  define g where "g = growIfNeeded b"
  define d where "d = data g"
  define u where "u = used b"
  have g: "valid g" "used g < cap g" "used g = u" "elements g = elements b"
    using assms growIfNeeded_valid by (auto simp: g_def u_def)
  have len: "u < length d" using g by (auto simp: valid_def d_def)
  have pu: "pos \<le> u" using assms(2) by (simp add: u_def)
  define d1 where "d1 = (if u - pos \<noteq> 0 then memmove d (pos + 1) pos (u - pos) else d)"
  have len1: "length d1 = length d"
    using pu len by (simp add: d1_def memmove_length)
  have nth1: "d1 ! k = (if pos + 1 \<le> k \<and> k < u + 1 then d ! (k - 1) else d ! k)"
    if "k < length d" for k
  proof (cases "u - pos \<noteq> 0")
    case True
    have "d1 ! k = (if pos + 1 \<le> k \<and> k < pos + 1 + (u - pos) then d ! (pos + (k - (pos + 1))) else d ! k)"
      using True memmove_nth[of "pos + 1" "u - pos" d pos k] pu len that by (simp add: d1_def)
    moreover have "pos + 1 + (u - pos) = u + 1" using pu by simp
    moreover have "pos + 1 \<le> k \<Longrightarrow> pos + (k - (pos + 1)) = k - 1" by simp
    ultimately show ?thesis by auto
  next
    case False
    then show ?thesis using pu by (auto simp: d1_def)
  qed
  have el: "take (u + 1) (d1[pos := x]) = take pos (take u d) @ x # drop pos (take u d)"
  proof (rule nth_equalityI)
    show "length (take (u + 1) (d1[pos := x])) = length (take pos (take u d) @ x # drop pos (take u d))"
      using len1 len pu by auto
  next
    fix k assume "k < length (take (u + 1) (d1[pos := x]))"
    then have k: "k < u + 1" using len1 len by simp
    then have kd: "k < length d" using len by simp
    have lhs: "take (u + 1) (d1[pos := x]) ! k = (if k = pos then x else d1 ! k)"
      using k kd len1 by (simp add: nth_list_update)
    define A where "A = take pos (take u d)"
    have lA: "length A = pos" using pu len by (simp add: A_def)
    consider "k < pos" | "k = pos" | "pos < k" by linarith
    then have "(if k = pos then x else d1 ! k) = (A @ x # drop pos (take u d)) ! k"
    proof cases
      case 1
      have r: "(A @ x # drop pos (take u d)) ! k = A ! k" using 1 by (simp add: nth_append lA)
      have a: "A ! k = d ! k" using 1 pu by (simp add: A_def)
      have l: "d1 ! k = d ! k" using 1 nth1[OF kd] by simp
      have ne: "k \<noteq> pos" using 1 by simp
      show ?thesis by (simp only: r a l ne if_False)
    next
      case 2
      have r: "(A @ x # drop pos (take u d)) ! pos = x" using nth_append_length[of A x] lA by simp
      show ?thesis unfolding 2 r by simp
    next
      case 3
      define j where "j = k - pos - 1"
      have j: "k = pos + Suc j" using 3 by (simp add: j_def)
      have r: "(A @ x # drop pos (take u d)) ! (pos + Suc j) = drop pos (take u d) ! j"
        using nth_append_length_plus[of A "x # drop pos (take u d)" "Suc j"] lA by simp
      have ju: "pos + j < u" using j k by simp
      have a: "drop pos (take u d) ! j = d ! (pos + j)" using ju pu len by simp
      have l: "d1 ! (pos + Suc j) = d ! (pos + j)" using nth1[OF kd] ju unfolding j by simp
      have ne: "pos + Suc j \<noteq> pos" by simp
      show ?thesis unfolding j by (simp only: r a l ne if_False)
    qed
    then show "take (u + 1) (d1[pos := x]) ! k = (take pos (take u d) @ x # drop pos (take u d)) ! k"
      unfolding lhs A_def .
  qed
  have res: "insertAt pos x b = Inr (g\<lparr>data := d1[pos := x], used := u + 1\<rparr>)"
    using assms(2) g(3) by (simp add: insertAt_def Let_def g_def[symmetric] d_def[symmetric] d1_def u_def)
  have el': "elements (g\<lparr>data := d1[pos := x], used := u + 1\<rparr>) = take pos (elements b) @ x # drop pos (elements b)"
  proof -
    have eg: "take u d = elements b" using g(3,4) by (simp add: elements_def d_def)
    have "elements (g\<lparr>data := d1[pos := x], used := u + 1\<rparr>) = take (u + 1) (d1[pos := x])"
      by (simp add: elements_def)
    then show ?thesis unfolding el eg .
  qed
  have wf': "valid (g\<lparr>data := d1[pos := x], used := u + 1\<rparr>)"
    using g len len1 by (simp add: valid_def d_def)
  show ?thesis
    unfolding res using el' wf' by (simp add: u_def g_def)
qed

subsection \<open>Erasing\<close>

lemma sorted_remove_nth: "sorted xs \<Longrightarrow> sorted (take i xs @ drop (Suc i) xs)"
proof -
  assume s: "sorted xs"
  have "sorted (take i xs @ drop i xs)" using s by simp
  then have a: "\<forall>x\<in>set (take i xs). \<forall>y\<in>set (drop i xs). x \<le> y"
    unfolding sorted_append by blast
  have "set (drop (Suc i) xs) \<subseteq> set (drop i xs)"
    by (metis drop_Suc set_drop_subset tl_drop drop_drop set_drop_subset_set_drop Suc_n_not_le_n nat_le_linear)
  with a show ?thesis
    using s by (auto simp: sorted_append sorted_wrt_take sorted_wrt_drop)
qed

lemma elements_length [simp]: "valid b \<Longrightarrow> length (elements b) = used b"
  by (simp add: elements_def valid_def)

lemma elements_nth [simp]: "i < used b \<Longrightarrow> elements b ! i = data b ! i"
  by (simp add: elements_def)

lemma elements_drop_Cons:
  "valid b \<Longrightarrow> pos < used b \<Longrightarrow> drop pos (elements b) = data b ! pos # drop (Suc pos) (elements b)"
  using Cons_nth_drop_Suc[of pos "elements b"] by simp

lemma erase_step:
  assumes "valid b" "idx < used b"
  defines "b' \<equiv> b\<lparr>data := shift_loop (data b) (idx + 1) (used b), used := used b - 1\<rparr>"
  shows "valid b'" "cap b' = cap b" "used b' = used b - 1"
    "elements b' = take idx (elements b) @ drop (idx + 1) (elements b)"
proof -
  show "valid b'" using assms(1,2) by (auto simp: valid_def b'_def)
  show "cap b' = cap b" by (simp add: b'_def)
  show "used b' = used b - 1" by (simp add: b'_def)
  have "used b \<le> length (data b)" using assms(1) by (simp add: valid_def)
  from shift_loop_take[OF assms(2) this]
  show "elements b' = take idx (elements b) @ drop (idx + 1) (elements b)"
    by (simp add: elements_def b'_def)
qed

lemma eraseValue_loop_spec:
  assumes "valid b" "pos \<le> used b"
  shows "\<exists>b'. eraseValue_loop v cnt pos b removed =
            (b', removed + min (length (takeWhile (\<lambda>y. y = v) (drop pos (elements b)))) (cnt - removed)) \<and>
          valid b' \<and> cap b' = cap b \<and>
          elements b' = take pos (elements b) @
             drop (pos + min (length (takeWhile (\<lambda>y. y = v) (drop pos (elements b)))) (cnt - removed)) (elements b)"
  using assms
proof (induction v cnt pos b removed rule: eraseValue_loop.induct)
  case (1 v cnt pos b removed)
  let ?xs = "elements b"
  let ?k = "length (takeWhile (\<lambda>y. y = v) (drop pos ?xs))"
  have lenxs: "length ?xs = used b" using "1.prems"(1) by simp
  show ?case
  proof (cases "pos < used b \<and> data b ! pos = v \<and> removed < cnt")
    case False
    have res: "eraseValue_loop v cnt pos b removed = (b, removed)"
      using False by (subst eraseValue_loop.simps) auto
    have "min ?k (cnt - removed) = 0"
    proof (cases "pos < used b")
      case pu: True
      then have "drop pos ?xs = data b ! pos # drop (Suc pos) ?xs"
        using elements_drop_Cons "1.prems"(1) by blast
      then show ?thesis using False pu by auto
    next
      case False
      then show ?thesis using lenxs by simp
    qed
    then show ?thesis using res "1.prems" by simp
  next
    case True
    define b1 where "b1 = b\<lparr>data := shift_loop (data b) (pos + 1) (used b), used := used b - 1\<rparr>"
    have pu: "pos < used b" and hit: "data b ! pos = v" and rc: "removed < cnt" using True by auto
    have b1: "valid b1" "cap b1 = cap b" "used b1 = used b - 1"
      "elements b1 = take pos ?xs @ drop (pos + 1) ?xs"
      using erase_step[OF "1.prems"(1) pu] by (simp_all add: b1_def)
    have res: "eraseValue_loop v cnt pos b removed = eraseValue_loop v cnt pos b1 (removed + 1)"
      using True by (subst eraseValue_loop.simps) (simp add: b1_def)
    have d: "drop pos ?xs = v # drop (Suc pos) ?xs"
      using elements_drop_Cons[OF "1.prems"(1) pu] hit by simp
    have d1: "drop pos (elements b1) = drop (Suc pos) ?xs"
      using lenxs pu by (simp add: b1(4))
    define k1 where "k1 = length (takeWhile (\<lambda>y. y = v) (drop (Suc pos) ?xs))"
    have k: "?k = Suc k1" unfolding d k1_def by simp
    have m: "removed + 1 + min k1 (cnt - (removed + 1)) = removed + min ?k (cnt - removed)"
      unfolding k using rc by linarith
    have m2: "1 + min k1 (cnt - (removed + 1)) = min ?k (cnt - removed)"
      unfolding k using rc by linarith
    have p1: "pos \<le> used b1" using pu b1(3) by simp
    from "1.IH"[OF True, folded b1_def, OF b1(1) p1]
    obtain b' where b': "eraseValue_loop v cnt pos b1 (removed + 1) =
         (b', removed + 1 + min k1 (cnt - (removed + 1)))" "valid b'" "cap b' = cap b1"
       "elements b' = take pos (elements b1) @ drop (pos + min k1 (cnt - (removed + 1))) (elements b1)"
      unfolding d1 k1_def by blast
    have tk: "take pos (elements b1) = take pos ?xs"
      using lenxs pu by (simp add: b1(4))
    have dr: "drop (pos + j) (elements b1) = drop (pos + (1 + j)) ?xs" for j
      using lenxs pu by (simp add: b1(4) add.commute)
    have "elements b' = take pos ?xs @ drop (pos + min ?k (cnt - removed)) ?xs"
      unfolding b'(4) tk dr m2 ..
    then show ?thesis
      unfolding res b'(1) m using b'(2,3) b1(2) by simp
  qed
qed

subsection \<open>The invariant: well-formed and sorted\<close>

lemma lowerBound_le_used: "lowerBound x b \<le> used b"
  using lowerBound_loop_range[of 0 "used b" "data b" x] by (simp add: lowerBound_def)

lemma lowerBound_split:
  assumes "valid b" "sorted (elements b)"
  shows "\<forall>i < lowerBound x b. elements b ! i < x"
    and "\<forall>i. lowerBound x b \<le> i \<and> i < used b \<longrightarrow> x \<le> elements b ! i"
proof -
  have u: "used b \<le> length (data b)" using assms(1) by (simp add: valid_def)
  have s: "sorted (take (used b) (data b))" using assms(2) by (simp add: elements_def)
  have *: "(\<forall>i < lowerBound x b. data b ! i < x) \<and>
        (\<forall>i. lowerBound x b \<le> i \<and> i < used b \<longrightarrow> x \<le> data b ! i)"
    unfolding lowerBound_def
    by (rule lowerBound_loop_split[OF s u]) simp_all
  show "\<forall>i < lowerBound x b. elements b ! i < x"
    using * lowerBound_le_used[of x b] by (simp add: elements_def)
  show "\<forall>i. lowerBound x b \<le> i \<and> i < used b \<longrightarrow> x \<le> elements b ! i"
    using * by (simp add: elements_def)
qed

lemma sorted_insert_at:
  assumes "sorted xs" "p \<le> length xs"
    and "\<forall>i<p. xs ! i < (x::real)" and "\<forall>i. p \<le> i \<and> i < length xs \<longrightarrow> x \<le> xs ! i"
  shows "sorted (take p xs @ x # drop p xs)"
proof -
  have a: "\<forall>y\<in>set (take p xs). y \<le> x"
  proof
    fix y assume "y \<in> set (take p xs)"
    then obtain i where i: "i < length (take p xs)" "take p xs ! i = y"
      unfolding in_set_conv_nth by blast
    have ip: "i < p" using i(1) by simp
    then have "xs ! i < x" using assms(3) by blast
    moreover have "take p xs ! i = xs ! i" using ip by simp
    ultimately show "y \<le> x" using i(2) by simp
  qed
  have b: "\<forall>y\<in>set (drop p xs). x \<le> y"
  proof
    fix y assume "y \<in> set (drop p xs)"
    then obtain i where i: "i < length (drop p xs)" "drop p xs ! i = y"
      unfolding in_set_conv_nth by blast
    have ip: "p + i < length xs" using i(1) by simp
    then have "x \<le> xs ! (p + i)" using assms(4) by simp
    moreover have "drop p xs ! i = xs ! (p + i)" using assms(2) by simp
    ultimately show "x \<le> y" using i(2) by simp
  qed
  have "sorted (take p xs @ drop p xs)" using assms(1) by simp
  then have c: "\<forall>y\<in>set (take p xs). \<forall>z\<in>set (drop p xs). y \<le> z"
    unfolding sorted_append by blast
  show ?thesis
    using a b c assms(1) by (auto simp: sorted_append sorted_wrt_take sorted_wrt_drop)
qed

lemma insert_sa_spec:
  assumes "valid b"
  shows "\<exists>b'. insert_sa x b = Inr b' \<and> valid b' \<and> used b' = used b + 1 \<and>
            cap b' = cap (growIfNeeded b) \<and>
            elements b' = take (lowerBound x b) (elements b) @ x # drop (lowerBound x b) (elements b)"
  unfolding insert_sa_def Let_def
  by (rule insertAt_elements[OF assms lowerBound_le_used])

lemma insert_sa_sorted:
  assumes "valid b" "sorted (elements b)" "insert_sa x b = Inr b'"
  shows "valid b' \<and> sorted (elements b')"
proof -
  from insert_sa_spec[OF assms(1), of x] assms(3)
  have b': "valid b'" "elements b' = take (lowerBound x b) (elements b) @ x # drop (lowerBound x b) (elements b)"
    by auto
  have "sorted (take (lowerBound x b) (elements b) @ x # drop (lowerBound x b) (elements b))"
    using lowerBound_split[OF assms(1,2), of x] lowerBound_le_used[of x b] assms(1,2)
    by (intro sorted_insert_at) simp_all
  with b' show ?thesis by simp
qed

lemma sorted_take_drop: "sorted xs \<Longrightarrow> sorted (take p xs @ drop (p + m) xs)"
proof -
  assume s: "sorted xs"
  have "sorted (take p xs @ drop p xs)" using s by simp
  then have a: "\<forall>x\<in>set (take p xs). \<forall>y\<in>set (drop p xs). x \<le> y"
    unfolding sorted_append by blast
  have "drop (p + m) xs = drop m (drop p xs)" by (simp add: add.commute)
  then have "set (drop (p + m) xs) \<subseteq> set (drop p xs)"
    using set_drop_subset[of m "drop p xs"] by simp
  with a show ?thesis
    using s by (auto simp: sorted_append sorted_wrt_take sorted_wrt_drop)
qed

lemma eraseValue_sorted:
  assumes "valid b" "sorted (elements b)" "eraseValue v cnt b = Inr (b', r)"
  shows "valid b' \<and> sorted (elements b') \<and> cap b' = cap b"
proof -
  have c: "cnt \<ge> 1" using assms(3) by (auto simp: eraseValue_def split: if_splits)
  from eraseValue_loop_spec[OF assms(1) lowerBound_le_used, where v=v and cnt=cnt and removed=0]
  obtain b'' where b'': "eraseValue_loop v cnt (lowerBound v b) b 0 =
      (b'', 0 + min (length (takeWhile (\<lambda>y. y = v) (drop (lowerBound v b) (elements b)))) (cnt - 0))"
     "valid b''" "cap b'' = cap b"
     "elements b'' = take (lowerBound v b) (elements b) @
         drop (lowerBound v b + min (length (takeWhile (\<lambda>y. y = v) (drop (lowerBound v b) (elements b)))) (cnt - 0)) (elements b)"
    by blast
  have "b' = b''" using assms(3) c b''(1) by (simp add: eraseValue_def)
  then show ?thesis using b''(2,3,4) sorted_take_drop[OF assms(2)] by simp
qed

lemma eraseAt_sorted:
  assumes "valid b" "sorted (elements b)" "eraseAt idx b = Inr b'"
  shows "valid b' \<and> sorted (elements b') \<and> cap b' = cap b"
proof -
  have i: "idx < used b" using assms(3) by (auto simp: eraseAt_def split: if_splits)
  have b': "b' = b\<lparr>data := shift_loop (data b) (idx + 1) (used b), used := used b - 1\<rparr>"
    using assms(3) i by (simp add: eraseAt_def)
  show ?thesis
    unfolding b' using erase_step[OF assms(1) i] sorted_take_drop[OF assms(2), of idx 1] by simp
qed

lemma apply_op_invariant:
  assumes "valid b" "sorted (elements b)" "apply_op c b = Inr b'"
  shows "valid b' \<and> sorted (elements b')"
proof (cases c)
  case (Insert x)
  then have "insert_sa x b = Inr b'" using assms(3) by simp
  then show ?thesis by (rule insert_sa_sorted[OF assms(1,2)])
next
  case (EraseValue v cnt)
  then have "(case eraseValue v cnt b of Inl e \<Rightarrow> Inl e | Inr (b', removed) \<Rightarrow> Inr b') = Inr b'"
    using assms(3) by simp
  then obtain r where "eraseValue v cnt b = Inr (b', r)"
    by (cases "eraseValue v cnt b") (auto split: prod.splits)
  from eraseValue_sorted[OF assms(1,2) this] show ?thesis by simp
next
  case (EraseAt idx)
  then have "eraseAt idx b = Inr b'" using assms(3) by simp
  from eraseAt_sorted[OF assms(1,2) this] show ?thesis by simp
qed

lemma run_invariant:
  "valid b \<Longrightarrow> sorted (elements b) \<Longrightarrow> run cs b = Inr b' \<Longrightarrow> valid b' \<and> sorted (elements b')"
proof (induction cs arbitrary: b)
  case Nil
  then show ?case by simp
next
  case (Cons c cs)
  from Cons.prems(3) obtain b1 where b1: "apply_op c b = Inr b1" "run cs b1 = Inr b'"
    by (auto split: sum.splits)
  from apply_op_invariant[OF Cons.prems(1,2) b1(1)] Cons.IH[OF _ _ b1(2)]
  show ?case by blast
qed

lemma apply_op_total:
  assumes "valid b" "pre c b"
  shows "\<exists>b'. apply_op c b = Inr b'"
proof (cases c)
  case (Insert x)
  then show ?thesis using insert_sa_spec[OF assms(1), of x] by auto
next
  case (EraseValue v cnt)
  then show ?thesis using assms(2) by (auto simp: eraseValue_def split: prod.splits)
next
  case (EraseAt idx)
  then show ?thesis using assms(2) by (simp add: eraseAt_def)
qed

lemma valid_default: "valid StatsArray_default" "elements StatsArray_default = []"
  by (simp_all add: valid_def StatsArray_default_def elements_def)

lemma valid_cap0: "valid (StatsArray_cap0 n)" "elements (StatsArray_cap0 n) = []"
  by (simp_all add: valid_def StatsArray_cap0_def elements_def)


subsection \<open>What \<open>eraseValue\<close> removes\<close>

lemma takeWhile_eq_replicate:
  "takeWhile (\<lambda>y. y = v) ys = replicate (length (takeWhile (\<lambda>y. y = v) ys)) v"
  by (induction ys) auto

lemma dropWhile_eq_above:
  "sorted ys \<Longrightarrow> \<forall>y\<in>set ys. (v::real) \<le> y \<Longrightarrow> \<forall>y\<in>set (dropWhile (\<lambda>y. y = v) ys). v < y"
proof (induction ys)
  case Nil
  then show ?case by simp
next
  case (Cons y ys)
  show ?case
  proof (cases "y = v")
    case True
    then show ?thesis using Cons by simp
  next
    case False
    then have "v < y" using Cons.prems(2) by simp
    moreover have "\<forall>z\<in>set ys. y \<le> z" using Cons.prems(1) by simp
    ultimately show ?thesis using False by fastforce
  qed
qed

text \<open>The shape of a sorted buffer around the lower bound of \<open>v\<close>.\<close>

lemma lowerBound_shape:
  fixes v :: real
  assumes "valid b" "sorted (elements b)"
  defines "p \<equiv> lowerBound v b"
  defines "k \<equiv> length (takeWhile (\<lambda>y. y = v) (drop p (elements b)))"
  defines "R \<equiv> dropWhile (\<lambda>y. y = v) (drop p (elements b))"
  shows "elements b = take p (elements b) @ replicate k v @ R"
    and "\<forall>y\<in>set (take p (elements b)). y < v"
    and "\<forall>y\<in>set R. v < y"
proof -
  let ?xs = "elements b"
  have len: "length ?xs = used b" using assms(1) by simp
  have pu: "p \<le> used b" unfolding p_def by (rule lowerBound_le_used)
  note sp = lowerBound_split[OF assms(1,2), of v, folded p_def]
  have "drop p ?xs = takeWhile (\<lambda>y. y = v) (drop p ?xs) @ R"
    unfolding R_def by simp
  also have "takeWhile (\<lambda>y. y = v) (drop p ?xs) = replicate k v"
    unfolding k_def by (rule takeWhile_eq_replicate)
  finally have d: "drop p ?xs = replicate k v @ R" .
  have "?xs = take p ?xs @ drop p ?xs" by simp
  then show "?xs = take p ?xs @ replicate k v @ R" unfolding d .
  show "\<forall>y\<in>set (take p ?xs). y < v"
  proof
    fix y assume "y \<in> set (take p ?xs)"
    then obtain i where i: "i < length (take p ?xs)" "take p ?xs ! i = y"
      unfolding in_set_conv_nth by blast
    have ip: "i < p" using i(1) by simp
    then have "?xs ! i < v" using sp(1) by blast
    moreover have "take p ?xs ! i = ?xs ! i" using ip by simp
    ultimately show "y < v" using i(2) by simp
  qed
  have ge: "\<forall>y\<in>set (drop p ?xs). v \<le> y"
  proof
    fix y assume "y \<in> set (drop p ?xs)"
    then obtain i where i: "i < length (drop p ?xs)" "drop p ?xs ! i = y"
      unfolding in_set_conv_nth by blast
    have ip: "p + i < used b" using i(1) len by simp
    then have "v \<le> ?xs ! (p + i)" using sp(2) by simp
    moreover have "drop p ?xs ! i = ?xs ! (p + i)" using pu len by simp
    ultimately show "v \<le> y" using i(2) by simp
  qed
  have "sorted (drop p ?xs)" using assms(2) by (simp add: sorted_wrt_drop)
  from dropWhile_eq_above[OF this ge] show "\<forall>y\<in>set R. v < y" unfolding R_def .
qed

lemma count_list_replicate [simp]: "count_list (replicate k v) v = k"
  by (induction k) auto

lemma count_list_none: "\<forall>y\<in>set ys. y \<noteq> v \<Longrightarrow> count_list ys v = 0"
  by (induction ys) auto

lemma filter_neq_all: "\<forall>y\<in>set ys. y \<noteq> v \<Longrightarrow> filter (\<lambda>y. y \<noteq> v) ys = ys"
  by (induction ys) auto

lemma filter_neq_replicate [simp]: "filter (\<lambda>y. y \<noteq> v) (replicate k v) = []"
  by (induction k) auto

lemma eraseValue_spec:
  fixes v :: real
  assumes "valid b" "sorted (elements b)" "cnt \<ge> 1"
  defines "r \<equiv> min cnt (count_list (elements b) v)"
  shows "\<exists>b'. eraseValue v cnt b = Inr (b', r) \<and>
           valid b' \<and> cap b' = cap b \<and>
           used b' = used b - r \<and>
           mset (elements b') + replicate_mset r v = mset (elements b) \<and>
           count_list (elements b') v = count_list (elements b) v - r \<and>
           filter (\<lambda>y. y \<noteq> v) (elements b') = filter (\<lambda>y. y \<noteq> v) (elements b) \<and>
           sorted (elements b')"
proof -
  let ?xs = "elements b"
  define p where "p = lowerBound v b"
  define k where "k = length (takeWhile (\<lambda>y. y = v) (drop p ?xs))"
  define R where "R = dropWhile (\<lambda>y. y = v) (drop p ?xs)"
  define A where "A = take p ?xs"
  note sh = lowerBound_shape[OF assms(1,2), of v, folded p_def, folded k_def R_def A_def]
  have pu: "p \<le> used b" unfolding p_def by (rule lowerBound_le_used)
  have lA: "length A = p" using pu assms(1) by (simp add: A_def)
  have Ane: "\<forall>y\<in>set A. y \<noteq> v" using sh(2) by auto
  have Rne: "\<forall>y\<in>set R. y \<noteq> v" using sh(3) by auto
  have cnt: "count_list ?xs v = k"
    using arg_cong[OF sh(1), of "\<lambda>l. count_list l v"]
    by (simp add: count_list_none[OF Ane] count_list_none[OF Rne])
  have r: "r = min k cnt" unfolding r_def cnt by simp
  then have rk: "r \<le> k" by simp
  have "\<exists>b'. eraseValue_loop v cnt p b 0 = (b', r) \<and> valid b' \<and> cap b' = cap b \<and>
          elements b' = take p ?xs @ drop (p + r) ?xs"
    using eraseValue_loop_spec[OF assms(1) pu, where v=v and cnt=cnt and removed=0]
    unfolding k_def[symmetric] r by simp
  then obtain b' where b': "eraseValue_loop v cnt p b 0 = (b', r)" "valid b'" "cap b' = cap b"
     "elements b' = take p ?xs @ drop (p + r) ?xs"
    by blast
  have "drop (p + r) ?xs = drop (p + r) (A @ replicate k v @ R)" using sh(1) by simp
  also have "\<dots> = drop r (replicate k v @ R)" using lA by (simp add: add.commute)
  also have "\<dots> = replicate (k - r) v @ R" using rk by simp
  finally have ys: "elements b' = A @ replicate (k - r) v @ R"
    unfolding b'(4) A_def by simp
  have res: "eraseValue v cnt b = Inr (b', r)"
    using assms(3) b'(1) by (simp add: eraseValue_def p_def)
  have u: "used b' = used b - r"
  proof -
    have "used b' = length (elements b')" using b'(2) by simp
    also have "\<dots> = length ?xs - r"
      unfolding ys using arg_cong[OF sh(1), of length] rk by simp
    finally show ?thesis using assms(1) by simp
  qed
  have m: "mset (elements b') + replicate_mset r v = mset ?xs"
  proof -
    have "replicate_mset (k - r) v + replicate_mset r v = replicate_mset k (v::real)"
      by (rule multiset_eqI) (use rk in simp)
    then show ?thesis unfolding ys using arg_cong[OF sh(1), of mset] by (simp add: ac_simps)
  qed
  have c: "count_list (elements b') v = count_list ?xs v - r"
    unfolding cnt ys by (simp add: count_list_none[OF Ane] count_list_none[OF Rne])
  have f: "filter (\<lambda>y. y \<noteq> v) (elements b') = filter (\<lambda>y. y \<noteq> v) ?xs"
    unfolding ys using arg_cong[OF sh(1), of "filter (\<lambda>y. y \<noteq> v)"]
    by (simp add: filter_neq_all[OF Ane] filter_neq_all[OF Rne])
  have s: "sorted (elements b')"
    unfolding b'(4) by (rule sorted_take_drop[OF assms(2)])
  show ?thesis using res b'(2,3) u m c f s by blast
qed

subsection \<open>The growth policy\<close>

lemma growIfNeeded_cap:
  "cap (growIfNeeded b) = (if used b < cap b then cap b else if cap b = 0 then 8 else cap b * 2)"
  by (simp add: growIfNeeded_def Let_def)

lemma insert_sa_cap:
  assumes "valid b" "insert_sa x b = Inr b'"
  shows "cap b' = (if used b < cap b then cap b else if cap b = 0 then 8 else cap b * 2)"
  using insert_sa_spec[OF assms(1), of x] assms(2) growIfNeeded_cap[of b] by auto

lemma growth_is_max:
  "c = 0 \<or> 4 \<le> c \<Longrightarrow> (if c = 0 then 8 else c * 2) = max 8 (2 * (c::nat))"
  by auto

lemma apply_op_cap:
  assumes "valid b" "sorted (elements b)" "cap b = 0 \<or> 8 \<le> cap b" "apply_op c b = Inr b'"
  shows "cap b' = 0 \<or> 8 \<le> cap b'"
proof (cases c)
  case (Insert x)
  then have "insert_sa x b = Inr b'" using assms(4) by simp
  from insert_sa_cap[OF assms(1) this] assms(3) show ?thesis by (auto split: if_splits)
next
  case (EraseValue v cnt)
  then have "(case eraseValue v cnt b of Inl e \<Rightarrow> Inl e | Inr (b', removed) \<Rightarrow> Inr b') = Inr b'"
    using assms(4) by simp
  then obtain r where "eraseValue v cnt b = Inr (b', r)"
    by (cases "eraseValue v cnt b") (auto split: prod.splits)
  from eraseValue_sorted[OF assms(1,2) this] assms(3) show ?thesis by simp
next
  case (EraseAt idx)
  then have "eraseAt idx b = Inr b'" using assms(4) by simp
  from eraseAt_sorted[OF assms(1,2) this] assms(3) show ?thesis by simp
qed

lemma run_cap:
  "valid b \<Longrightarrow> sorted (elements b) \<Longrightarrow> cap b = 0 \<or> 8 \<le> cap b \<Longrightarrow> run cs b = Inr b' \<Longrightarrow>
   cap b' = 0 \<or> 8 \<le> cap b'"
proof (induction cs arbitrary: b)
  case Nil
  then show ?case by simp
next
  case (Cons c cs)
  from Cons.prems(4) obtain b1 where b1: "apply_op c b = Inr b1" "run cs b1 = Inr b'"
    by (auto split: sum.splits)
  have i: "valid b1 \<and> sorted (elements b1)"
    by (rule apply_op_invariant[OF Cons.prems(1,2) b1(1)])
  have c: "cap b1 = 0 \<or> 8 \<le> cap b1"
    by (rule apply_op_cap[OF Cons.prems(1,2,3) b1(1)])
  from Cons.IH[OF _ _ c b1(2)] i show ?case by blast
qed

text \<open>From the default constructor the growth policy is \<open>max(8, 2 \<times> capacity)\<close>.\<close>

lemma growth_from_default:
  assumes "run cs StatsArray_default = Inr b" "\<not> used b < cap b" "insert_sa x b = Inr b'"
  shows "cap b' = max 8 (2 * cap b)"
proof -
  have v: "valid b \<and> sorted (elements b)"
    using run_invariant[OF _ _ assms(1)] valid_default by simp
  have "cap b = 0 \<or> 8 \<le> cap b"
    using run_cap[OF _ _ _ assms(1)] valid_default by (simp add: StatsArray_default_def)
  then have "(if cap b = 0 then 8 else cap b * 2) = max 8 (2 * cap b)"
    by (intro growth_is_max) auto
  then show ?thesis using insert_sa_cap[of b x b'] v assms(2,3) by simp
qed

subsection \<open>Prefixes of a sequence of calls\<close>

lemma run_append:
  "run (cs @ ds) b = (case run cs b of Inl e \<Rightarrow> Inl e | Inr b' \<Rightarrow> run ds b')"
  by (induction cs arbitrary: b) (auto split: sum.splits)

lemma run_prefix:
  assumes "run cs b = Inr b'"
  shows "\<exists>bk. run (take k cs) b = Inr bk"
proof -
  have "run (take k cs @ drop k cs) b = Inr b'" using assms by simp
  then show ?thesis unfolding run_append by (cases "run (take k cs) b") auto
qed

lemma empty_sorted: "valid b \<Longrightarrow> used b = 0 \<Longrightarrow> sorted (elements b)"
  by (simp add: elements_def)

subsection \<open>Size checks\<close>

lemma requireSize_empty:
  "used b = 0 \<Longrightarrow> requireSize need what b = Some (DatasetEmptyException ''Dataset is empty.'')"
  by (simp add: requireSize_def)

lemma requireSize_enough: "0 < used b \<Longrightarrow> need \<le> used b \<Longrightarrow> requireSize need what b = None"
  by (simp add: requireSize_def)

lemma variance_empty: "used b = 0 \<Longrightarrow> variance sample b = Inl (DatasetEmptyException ''Dataset is empty.'')"
  by (simp add: variance_def requireSize_empty)

lemma stdev_empty: "used b = 0 \<Longrightarrow> stdev sample b = Inl (DatasetEmptyException ''Dataset is empty.'')"
  by (simp add: stdev_def variance_empty)

lemma coefficientOfVariation_empty:
  "used b = 0 \<Longrightarrow> coefficientOfVariation sample b = Inl (DatasetEmptyException ''Dataset is empty.'')"
  by (simp add: coefficientOfVariation_def requireSize_empty)

subsection \<open>Rounding\<close>

lemma ties_even_int [simp]: "ties_even (real_of_int j) = j"
  by (simp add: ties_even_def)

lemma ties_even_bounds: "\<lfloor>q\<rfloor> \<le> ties_even q" "ties_even q \<le> \<lfloor>q\<rfloor> + 1"
  by (simp_all add: ties_even_def Let_def)

lemma ties_even_near:
  assumes "real_of_int j \<le> q" "q < real_of_int j + 1 / 2"
  shows "ties_even q = j"
proof -
  have f: "\<lfloor>q\<rfloor> = j" using assms by (intro floor_unique) auto
  show ?thesis using assms by (simp add: ties_even_def f)
qed

lemma two_powr_int_ge: "0 \<le> k \<Longrightarrow> 2 powr real_of_int k = real_of_int (2 ^ nat k)"
  using powr_realpow[of 2 "nat k"] by simp

lemma quantum_at:
  assumes "2 powr real_of_int e \<le> \<bar>x\<bar>" "\<bar>x\<bar> < 2 powr real_of_int (e + 1)" "1 - E \<le> e"
  shows "quantum p E x = 2 powr real_of_int (e - (int p - 1))"
proof -
  have pos: "0 < \<bar>x\<bar>" using assms(1) by (smt (verit) powr_gt_zero)
  have "\<lfloor>log 2 \<bar>x\<bar>\<rfloor> = e"
    using floor_log_eq_powr_iff[of "\<bar>x\<bar>" 2 e] pos assms(1,2) by simp
  then show ?thesis using assms(3) by (simp add: quantum_def max_def)
qed

lemma rnd_at:
  assumes "2 powr real_of_int e \<le> \<bar>x\<bar>" "\<bar>x\<bar> < 2 powr real_of_int (e + 1)" "1 - E \<le> e"
  shows "rnd p E x =
           (let q = 2 powr real_of_int (e - (int p - 1));
                y = real_of_int (ties_even (x / q)) * q
            in if \<bar>y\<bar> \<ge> 2 powr real_of_int (E + 1) then (if x > 0 then PInf else NInf)
               else Fin y)"
proof -
  have "x \<noteq> 0" using assms(1) by (smt (verit) powr_gt_zero)
  then show ?thesis
    unfolding rnd_def quantum_at[OF assms] by simp
qed

lemma floor_log2_less:
  assumes "0 < x" "x < 2 powr real_of_int n"
  shows "\<lfloor>log 2 x\<rfloor> < n"
proof -
  have "log 2 x < real_of_int n"
    using assms by (simp add: log_less_iff)
  then show ?thesis by (simp add: floor_less_iff)
qed

lemma floor_log2_ge:
  assumes "2 powr real_of_int n \<le> x"
  shows "n \<le> \<lfloor>log 2 x\<rfloor>"
proof -
  have "0 < x" using assms by (smt (verit) powr_gt_zero)
  then have "real_of_int n \<le> log 2 x"
    using assms by (simp add: le_log_iff)
  then show ?thesis by (simp add: le_floor_iff)
qed

lemma rnd_exact:
  assumes "x = real_of_int m * 2 powr real_of_int k" "\<bar>m\<bar> < 2 ^ p"
    and "1 - E - (int p - 1) \<le> k" "\<bar>x\<bar> < 2 powr real_of_int (E + 1)"
  shows "rnd p E x = Fin x"
proof (cases "x = 0")
  case True
  then show ?thesis by (simp add: rnd_def)
next
  case False
  define t where "t = max \<lfloor>log 2 \<bar>x\<bar>\<rfloor> (1 - E) - (int p - 1)"
  have q: "quantum p E x = 2 powr real_of_int t" by (simp add: quantum_def t_def)
  have ax: "\<bar>x\<bar> = real_of_int \<bar>m\<bar> * 2 powr real_of_int k"
    unfolding assms(1) by (simp add: abs_mult)
  have "real_of_int \<bar>m\<bar> < 2 ^ p" using assms(2) by (metis of_int_less_iff of_int_numeral of_int_power)
  then have "\<bar>x\<bar> < 2 ^ p * 2 powr real_of_int k"
    unfolding ax by (simp add: mult_strict_right_mono)
  also have "(2::real) ^ p = 2 powr real_of_int (int p)" by (simp add: powr_realpow)
  finally have "\<bar>x\<bar> < 2 powr real_of_int (int p + k)" by (simp add: powr_add)
  then have "\<lfloor>log 2 \<bar>x\<bar>\<rfloor> < int p + k" using False by (intro floor_log2_less) simp_all
  then have tk: "t \<le> k" using assms(3) by (simp add: t_def max_def)
  define j where "j = m * 2 ^ nat (k - t)"
  have "2 powr real_of_int k = 2 powr real_of_int (k - t) * 2 powr real_of_int t"
    by (simp add: powr_add[symmetric])
  also have "2 powr real_of_int (k - t) = real_of_int (2 ^ nat (k - t))"
    using tk by (intro two_powr_int_ge) simp
  finally have xj: "x = real_of_int j * 2 powr real_of_int t"
    unfolding assms(1) j_def by simp
  then have "x / 2 powr real_of_int t = real_of_int j" by simp
  then have "real_of_int (ties_even (x / 2 powr real_of_int t)) * 2 powr real_of_int t = x"
    using xj by simp
  then show ?thesis
    using False assms(4) unfolding rnd_def q by (simp add: Let_def)
qed

lemma rnd_pos:
  assumes "2 powr real_of_int a \<le> x" "x \<le> 2 powr real_of_int b" "1 - E \<le> a" "b \<le> E" "0 < p"
  shows "\<exists>y. rnd p E x = Fin y \<and> 2 powr real_of_int a \<le> y \<and> y \<le> 2 powr real_of_int b"
proof -
  have x0: "0 < x" using assms(1) by (smt (verit) powr_gt_zero)
  define e where "e = \<lfloor>log 2 x\<rfloor>"
  have ae: "a \<le> e" unfolding e_def by (rule floor_log2_ge[OF assms(1)])
  have e1: "2 powr real_of_int e \<le> x" and e2: "x < 2 powr real_of_int (e + 1)"
    using floor_log_eq_powr_iff[of x 2 e] x0 by (simp_all add: e_def)
  have eb: "e \<le> b"
  proof -
    have "2 powr real_of_int e \<le> 2 powr real_of_int b" using e1 assms(2) by linarith
    then show ?thesis by simp
  qed
  define q where "q = 2 powr real_of_int (e - (int p - 1))"
  have q0: "0 < q" by (simp add: q_def)
  define u where "u = x / q"
  define P where "P = (2::int) ^ (p - 1)"
  have Pq: "real_of_int P * q = 2 powr real_of_int e"
  proof -
    have "real_of_int P = 2 powr real_of_int (int p - 1)"
      using assms(5) two_powr_int_ge[of "int p - 1"] by (simp add: P_def nat_diff_distrib')
    then show ?thesis by (simp add: q_def powr_add[symmetric])
  qed
  have P2q: "real_of_int (2 * P) * q = 2 powr real_of_int (e + 1)"
    using Pq by (simp add: powr_add)
  have u1: "real_of_int P \<le> u"
    using e1 Pq q0 by (simp add: u_def pos_le_divide_eq)
  have u2: "u < real_of_int (2 * P)"
    using e2 P2q q0 by (simp add: u_def pos_divide_less_eq)
  define j where "j = ties_even u"
  have j1: "P \<le> j"
  proof -
    have "P \<le> \<lfloor>u\<rfloor>" using u1 by (simp add: le_floor_iff)
    then show ?thesis using ties_even_bounds(1)[of u] by (simp add: j_def)
  qed
  have j2: "j \<le> 2 * P"
  proof -
    have "\<lfloor>u\<rfloor> < 2 * P" using u2 by (simp add: floor_less_iff)
    then show ?thesis using ties_even_bounds(2)[of u] by (simp add: j_def)
  qed
  define y where "y = real_of_int j * q"
  have y1: "2 powr real_of_int e \<le> y"
    unfolding y_def Pq[symmetric] using j1 q0 by (simp add: mult_right_mono)
  have y2: "y \<le> 2 powr real_of_int (e + 1)"
    unfolding y_def P2q[symmetric] using j2 q0 by (intro mult_right_mono) simp_all
  have lo: "2 powr real_of_int a \<le> y"
  proof -
    have "2 powr real_of_int a \<le> 2 powr real_of_int e" using ae by simp
    then show ?thesis using y1 by linarith
  qed
  have hi: "y \<le> 2 powr real_of_int b"
  proof (cases "e < b")
    case True
    then have "2 powr real_of_int (e + 1) \<le> 2 powr real_of_int b" by simp
    then show ?thesis using y2 by linarith
  next
    case False
    then have eb': "e = b" using eb by simp
    then have "x = 2 powr real_of_int e" using e1 assms(2) by simp
    then have "u = real_of_int P" using Pq q0 by (simp add: u_def field_simps)
    then have "j = P" by (simp add: j_def)
    then show ?thesis using Pq eb' by (simp add: y_def)
  qed
  have "2 powr real_of_int b < 2 powr real_of_int (E + 1)" using assms(4) by simp
  then have nov: "\<not> \<bar>y\<bar> \<ge> 2 powr real_of_int (E + 1)"
    using hi lo by (smt (verit) powr_gt_zero)
  have en: "1 - E \<le> e" using ae assms(3) by simp
  have ax: "\<bar>x\<bar> = x" using x0 by simp
  have "rnd p E x = (if \<bar>y\<bar> \<ge> 2 powr real_of_int (E + 1) then (if x > 0 then PInf else NInf)
               else Fin y)"
    unfolding y_def j_def u_def q_def
    by (rule rnd_at[unfolded Let_def, OF _ _ en]) (simp_all only: ax e1 e2)
  then have "rnd p E x = Fin y" using nov by (simp only: if_False)
  then show ?thesis using lo hi by blast
qed

subsection \<open>Exact values and unrolled loops\<close>

text \<open>Numbers that both formats hold exactly.\<close>

lemma rnd_int:
  assumes "\<bar>m\<bar> < 2 ^ p" "int p \<le> E + 1" "0 < E" "0 < p"
  shows "rnd p E (real_of_int m) = Fin (real_of_int m)"
proof -
  have "real_of_int \<bar>m\<bar> < 2 ^ p"
    using assms(1) by (metis of_int_less_iff of_int_numeral of_int_power)
  also have "(2::real) ^ p = 2 powr real_of_int (int p)" by (simp add: powr_realpow)
  also have "\<dots> \<le> 2 powr real_of_int (E + 1)" using assms(2) by simp
  finally have "\<bar>real_of_int m\<bar> < 2 powr real_of_int (E + 1)" by simp
  then show ?thesis
    using assms by (intro rnd_exact[of _ m 0]) auto
qed

lemma rl_int: "\<bar>m\<bar> < 2 ^ 64 \<Longrightarrow> rl (real_of_int m) = Fin (real_of_int m)"
  unfolding rl_def by (rule rnd_int) simp_all

lemma rd_int: "\<bar>m\<bar> < 2 ^ 53 \<Longrightarrow> rd (real_of_int m) = Fin (real_of_int m)"
  unfolding rd_def by (rule rnd_int) simp_all

lemma rl_nat: "n < 2 ^ 64 \<Longrightarrow> rl (real n) = Fin (real n)"
  using rl_int[of "int n"] by simp

lemma rd_nat: "n < 2 ^ 53 \<Longrightarrow> rd (real n) = Fin (real n)"
  using rd_int[of "int n"] by simp

lemma rl_0 [simp]: "rl 0 = Fin 0" by (simp add: rl_def rnd_def)
lemma rd_0 [simp]: "rd 0 = Fin 0" by (simp add: rd_def rnd_def)

lemma rl_numeral: "(numeral k :: int) < 2 ^ 64 \<Longrightarrow> rl (numeral k) = Fin (numeral k)"
  using rl_int[of "numeral k"] by simp

lemma rl_neg_numeral: "(numeral k :: int) < 2 ^ 64 \<Longrightarrow> rl (- numeral k) = Fin (- numeral k)"
  using rl_int[of "- numeral k"] by simp

lemma rd_numeral: "(numeral k :: int) < 2 ^ 53 \<Longrightarrow> rd (numeral k) = Fin (numeral k)"
  using rd_int[of "numeral k"] by simp

lemma rd_neg_numeral: "(numeral k :: int) < 2 ^ 53 \<Longrightarrow> rd (- numeral k) = Fin (- numeral k)"
  using rd_int[of "- numeral k"] by simp

lemma rl_1 [simp]: "rl 1 = Fin 1" using rl_int[of 1] by simp
lemma rd_1 [simp]: "rd 1 = Fin 1" using rd_int[of 1] by simp
lemma rl_neg_1 [simp]: "rl (- 1) = Fin (- 1)" using rl_int[of "- 1"] by simp

lemmas fp_ops = dadd_def dsub_def dmul_def ddiv_def dsqrt_def ladd_def lsub_def lmul_def
  ldiv_def lsqrt_def fsub_def fle_def

lemmas fp_exact = rl_numeral rl_neg_numeral rd_numeral rd_neg_numeral

text \<open>Unrolling a loop.\<close>

lemma for_loop_step: "i < n \<Longrightarrow> for_loop i n body s = for_loop (Suc i) n body (body i s)"
  by (subst for_loop.simps) simp

lemma for_loop_done: "\<not> i < n \<Longrightarrow> for_loop i n body s = s"
  by (subst for_loop.simps) simp

lemma for_loop_fold: "for_loop i n body s = fold body [i..<n] s"
proof (induction "n - i" arbitrary: i s)
  case 0
  then show ?case by (simp add: for_loop_done)
next
  case (Suc k)
  then have lt: "i < n" and k: "k = n - Suc i" by simp_all
  show ?case
    unfolding for_loop_step[OF lt] Suc.hyps(1)[OF k] using lt by (simp add: upt_conv_Cons)
qed


subsection \<open>Runs of equal values\<close>

lemma run_end_ge: "j \<le> run_end d u i j"
proof (induction d u i j rule: run_end.induct)
  case (1 d u i j)
  show ?case
  proof (cases "j < u \<and> d ! j = d ! i")
    case True
    then have "run_end d u i j = run_end d u i (j + 1)"
      by (subst run_end.simps) simp
    with "1.IH"[OF True] show ?thesis by simp
  next
    case False
    then have "run_end d u i j = j" by (subst run_end.simps) auto
    then show ?thesis by simp
  qed
qed

lemma run_end_le: "j \<le> u \<Longrightarrow> run_end d u i j \<le> u"
proof (induction d u i j rule: run_end.induct)
  case (1 d u i j)
  show ?case
  proof (cases "j < u \<and> d ! j = d ! i")
    case True
    then have "run_end d u i j = run_end d u i (j + 1)"
      by (subst run_end.simps) simp
    with "1.IH"[OF True] True show ?thesis by simp
  next
    case False
    then have "run_end d u i j = j" by (subst run_end.simps) auto
    then show ?thesis using "1.prems" by simp
  qed
qed

lemma run_end_equal: "j \<le> k \<Longrightarrow> k < run_end d u i j \<Longrightarrow> d ! k = d ! i"
proof (induction d u i j rule: run_end.induct)
  case (1 d u i j)
  show ?case
  proof (cases "j < u \<and> d ! j = d ! i")
    case True
    then have eq: "run_end d u i j = run_end d u i (j + 1)"
      by (subst run_end.simps) simp
    show ?thesis
    proof (cases "k = j")
      case True
      then show ?thesis using \<open>j < u \<and> d ! j = d ! i\<close> by simp
    next
      case False
      then have "j + 1 \<le> k" using "1.prems"(1) by simp
      from "1.IH"[OF True this] "1.prems"(2) eq show ?thesis by simp
    qed
  next
    case False
    then have "run_end d u i j = j" by (subst run_end.simps) auto
    then show ?thesis using "1.prems" by simp
  qed
qed

lemma run_end_stop: "run_end d u i j < u \<Longrightarrow> d ! (run_end d u i j) \<noteq> d ! i"
proof (induction d u i j rule: run_end.induct)
  case (1 d u i j)
  show ?case
  proof (cases "j < u \<and> d ! j = d ! i")
    case True
    then have eq: "run_end d u i j = run_end d u i (j + 1)"
      by (subst run_end.simps) simp
    from "1.IH"[OF True] "1.prems" show ?thesis unfolding eq by simp
  next
    case False
    then have eq: "run_end d u i j = j" by (subst run_end.simps) auto
    then show ?thesis using False "1.prems" by simp
  qed
qed

text \<open>One run of a sorted buffer: from its first index \<open>i\<close> the inner loop stops at the
  first index \<open>j\<close> of the next run.\<close>

lemma run_end_run:
  assumes "u \<le> length d" "sorted (take u d)" "i < u"
  defines "j \<equiv> run_end d u i (i + 1)"
  shows "i < j" "j \<le> u"
    and "drop i (take u d) = replicate (j - i) (d ! i) @ drop j (take u d)"
    and "\<forall>y\<in>set (drop j (take u d)). d ! i < y"
proof -
  let ?xs = "take u d"
  have len: "length ?xs = u" using assms(1) by simp
  show ij: "i < j" using run_end_ge[of "i + 1" d u i] by (simp add: j_def)
  show ju: "j \<le> u" unfolding j_def using assms(3) by (intro run_end_le) simp
  have eq: "d ! k = d ! i" if "i \<le> k" "k < j" for k
  proof (cases "k = i")
    case True
    then show ?thesis by simp
  next
    case False
    then have "i + 1 \<le> k" using that(1) by simp
    then show ?thesis using that(2) unfolding j_def by (rule run_end_equal)
  qed
  have "drop i ?xs = take (j - i) (drop i ?xs) @ drop (j - i) (drop i ?xs)"
    by (rule append_take_drop_id[symmetric])
  also have "drop (j - i) (drop i ?xs) = drop j ?xs" using ij by simp
  also have "take (j - i) (drop i ?xs) = replicate (j - i) (d ! i)"
  proof (rule nth_equalityI)
    show "length (take (j - i) (drop i ?xs)) = length (replicate (j - i) (d ! i))"
      using len ju ij by simp
  next
    fix k assume "k < length (take (j - i) (drop i ?xs))"
    then have k: "k < j - i" by simp
    then have "take (j - i) (drop i ?xs) ! k = d ! (i + k)" using len ju by simp
    also have "\<dots> = d ! i" using k by (intro eq) simp_all
    finally show "take (j - i) (drop i ?xs) ! k = replicate (j - i) (d ! i) ! k" using k by simp
  qed
  finally show "drop i ?xs = replicate (j - i) (d ! i) @ drop j ?xs" .
  show "\<forall>y\<in>set (drop j ?xs). d ! i < y"
  proof
    fix y assume "y \<in> set (drop j ?xs)"
    then obtain k where k: "k < length (drop j ?xs)" "drop j ?xs ! k = y"
      unfolding in_set_conv_nth by blast
    have jk: "j + k < u" using k(1) len by simp
    then have ju': "j < u" by simp
    have y: "y = ?xs ! (j + k)" using k(2) ju len by simp
    have "?xs ! i \<le> ?xs ! j" using assms(2) ij ju' len by (intro sorted_nth_mono) simp_all
    moreover have "?xs ! j \<noteq> ?xs ! i"
      using run_end_stop[of d u i "i + 1"] ju' assms(3) unfolding j_def[symmetric] by simp
    moreover have "?xs ! j \<le> ?xs ! (j + k)" using assms(2) jk len by (intro sorted_nth_mono) simp_all
    ultimately show "d ! i < y" unfolding y using assms(3) by simp
  qed
qed

subsection \<open>Runs of a sorted list\<close>

lemma remdups_adj_run:
  "0 < n \<Longrightarrow> \<forall>y\<in>set zs. v < (y::real) \<Longrightarrow> remdups_adj (replicate n v @ zs) = v # remdups_adj zs"
proof (induction n)
  case 0
  then show ?case by simp
next
  case (Suc n)
  show ?case
  proof (cases n)
    case 0
    then show ?thesis using Suc.prems(2) by (cases zs) auto
  next
    case (Suc m)
    then have "remdups_adj (replicate (Suc n) v @ zs) = remdups_adj (replicate n v @ zs)"
      by simp
    then show ?thesis using Suc.IH Suc.prems(2) Suc by simp
  qed
qed

lemma count_list_run:
  assumes "\<forall>y\<in>set zs. v < (y::real)"
  shows "count_list (replicate n v @ zs) v = n"
    and "w \<in> set zs \<Longrightarrow> count_list (replicate n v @ zs) w = count_list zs w"
proof -
  have "v \<notin> set zs" using assms by auto
  then show "count_list (replicate n v @ zs) v = n" by simp
  assume "w \<in> set zs"
  then have "w \<noteq> v" using assms by auto
  then have "w \<notin> set (replicate n v)" by simp
  then show "count_list (replicate n v @ zs) w = count_list zs w" by simp
qed

lemma strict_sorted_remdups_adj: "sorted xs \<Longrightarrow> sorted_wrt (<) (remdups_adj (xs::real list))"
proof (induction xs rule: remdups_adj.induct)
  case 1
  then show ?case by simp
next
  case (2 x)
  then show ?case by simp
next
  case (3 x y xs)
  show ?case
  proof (cases "x = y")
    case True
    then show ?thesis using 3 by simp
  next
    case False
    then have "x < y" using "3.prems" by simp
    moreover have "\<forall>z\<in>set (y # xs). y \<le> z" using "3.prems" by auto
    ultimately have "\<forall>z\<in>set (y # xs). x < z" by fastforce
    then have a: "\<forall>z\<in>set (remdups_adj (y # xs)). x < z"
      unfolding remdups_adj_set .
    have r: "remdups_adj (x # y # xs) = x # remdups_adj (y # xs)" using False by simp
    have "sorted_wrt (<) (remdups_adj (y # xs))" using "3.IH"(2)[OF False] "3.prems" by simp
    then show ?thesis unfolding r sorted_wrt.simps using a by blast
  qed
qed

subsection \<open>The frequency table\<close>

lemma frequencyTable_loop_sum:
  "i \<le> u \<Longrightarrow> sum_list (map snd (frequencyTable_loop d u i ft)) = sum_list (map snd ft) + (u - i)"
proof (induction d u i ft rule: frequencyTable_loop.induct)
  case (1 d u i ft)
  show ?case
  proof (cases "i < u")
    case False
    then show ?thesis using "1.prems" by (subst frequencyTable_loop.simps) simp
  next
    case True
    define j where "j = run_end d u i (i + 1)"
    have ij: "i < j" using run_end_ge[of "i + 1" d u i] by (simp add: j_def)
    have ju: "j \<le> u" unfolding j_def using True by (intro run_end_le) simp
    have "frequencyTable_loop d u i ft = frequencyTable_loop d u j (ft @ [(d ! i, j - i)])"
      using True by (subst frequencyTable_loop.simps) (simp add: j_def Let_def)
    then show ?thesis
      using "1.IH"[OF True j_def ju] ij ju by simp
  qed
qed

lemma frequencyTable_loop_sorted:
  assumes "u \<le> length d" "sorted (take u d)" "i \<le> u"
  shows "frequencyTable_loop d u i ft =
           ft @ map (\<lambda>v. (v, count_list (drop i (take u d)) v)) (remdups_adj (drop i (take u d)))"
  using assms
proof (induction d u i ft rule: frequencyTable_loop.induct)
  case (1 d u i ft)
  let ?xs = "take u d"
  show ?case
  proof (cases "i < u")
    case False
    then have "drop i ?xs = []" by simp
    then show ?thesis using False by (subst frequencyTable_loop.simps) simp
  next
    case True
    define j where "j = run_end d u i (i + 1)"
    define zs where "zs = drop j ?xs"
    define v where "v = d ! i"
    note run = run_end_run[OF "1.prems"(1,2) True, folded j_def, folded zs_def v_def]
    have n: "0 < j - i" using run(1) by simp
    have step: "frequencyTable_loop d u i ft = frequencyTable_loop d u j (ft @ [(v, j - i)])"
      using True by (subst frequencyTable_loop.simps) (simp add: j_def Let_def v_def)
    have ih: "frequencyTable_loop d u j (ft @ [(v, j - i)]) =
        (ft @ [(v, j - i)]) @ map (\<lambda>w. (w, count_list zs w)) (remdups_adj zs)"
      using "1.IH"[OF True j_def "1.prems"(1,2) run(2)] by (simp add: zs_def v_def)
    have rd: "remdups_adj (drop i ?xs) = v # remdups_adj zs"
      unfolding run(3) by (rule remdups_adj_run[OF n run(4)])
    have cv: "count_list (drop i ?xs) v = j - i"
      unfolding run(3) by (rule count_list_run(1)[OF run(4)])
    have cw: "map (\<lambda>w. (w, count_list (drop i ?xs) w)) (remdups_adj zs) =
              map (\<lambda>w. (w, count_list zs w)) (remdups_adj zs)"
      unfolding run(3)
    proof (rule map_cong[OF refl])
      fix w assume "w \<in> set (remdups_adj zs)"
      then have "w \<in> set zs" by simp
      from count_list_run(2)[OF run(4) this, of "j - i"]
      show "(w, count_list (replicate (j - i) v @ zs) w) = (w, count_list zs w)"
        by (simp only:)
    qed
    show ?thesis
      unfolding step ih rd list.map cv cw by simp
  qed
qed

lemma frequencyTable_eq:
  assumes "valid b" "sorted (elements b)" "0 < used b"
  shows "frequencyTable b =
           Inr (map (\<lambda>v. (v, count_list (elements b) v)) (remdups_adj (elements b)))"
proof -
  have u: "used b \<le> length (data b)" using assms(1) by (simp add: valid_def)
  have s: "sorted (take (used b) (data b))" using assms(2) by (simp add: elements_def)
  show ?thesis
    using frequencyTable_loop_sorted[OF u s, of 0 "[]"] assms(3)
    by (simp add: frequencyTable_def requireSize_enough elements_def)
qed


subsection \<open>Kurtosis\<close>

lemma mean_returns: "0 < used b \<Longrightarrow> \<exists>mu. mean b = Inr mu"
  by (simp add: mean_def sum_sa_def requireSize_enough Let_def)

lemma kurtosis_unfold:
  assumes "4 \<le> used b" "mean b = Inr mu"
  shows "kurtosis b =
           Inr (if feq (kurtosis_s mu b) (Fin 0) then Fin 0
                else to_double (kurtosis_term1 mu b))"
    and "kurtosisExcess b =
           Inr (if feq (kurtosis_s mu b) (Fin 0) then Fin 0
                else to_double (lsub (kurtosis_term1 mu b) (kurtosis_term2 b)))"
proof -
  have r1: "requireSize 4 ''Kurtosis Excel term1'' b = None"
    and r2: "requireSize 4 ''Kurtosis Excess Excel'' b = None"
    using assms(1) by (simp_all add: requireSize_enough)
  show "kurtosis b =
           Inr (if feq (kurtosis_s mu b) (Fin 0) then Fin 0
                else to_double (kurtosis_term1 mu b))"
    unfolding kurtosis_def r1 assms(2) kurtosis_s_def kurtosis_term1_def Let_def
    by (simp only: option.case sum.case if_distrib[of Inr])
  show "kurtosisExcess b =
           Inr (if feq (kurtosis_s mu b) (Fin 0) then Fin 0
                else to_double (lsub (kurtosis_term1 mu b) (kurtosis_term2 b)))"
    unfolding kurtosisExcess_def r2 assms(2) kurtosis_s_def kurtosis_term1_def
      kurtosis_term2_def Let_def
    by (simp only: option.case sum.case if_distrib[of Inr])
qed

lemma rl_5_4: "rl (5 / 4) = Fin (5 / 4)"
  unfolding rl_def by (rule rnd_exact[of _ 5 "- 2"]) (simp_all add: powr_minus)

lemmas stat_eval = requireSize_def for_loop_fold upt_conv_Cons fp_ops fp_exact Let_def

lemma mean_1111: "mean \<lparr>data = [1, 1, 1, 1, 0, 0, 0, 0], used = 4, cap = 8\<rparr> = Inr (Fin 1)"
  by (simp add: mean_def sum_sa_def stat_eval)

lemma s_1111: "kurtosis_s (Fin 1) \<lparr>data = [1, 1, 1, 1, 0, 0, 0, 0], used = 4, cap = 8\<rparr> = Fin 0"
  by (simp add: kurtosis_s_def stat_eval)

lemma mean_m11: "mean \<lparr>data = [- 1, - 1, 0, 1, 1, 0, 0, 0], used = 5, cap = 8\<rparr> = Inr (Fin 0)"
  by (simp add: mean_def sum_sa_def stat_eval)

lemma s_m11: "kurtosis_s (Fin 0) \<lparr>data = [- 1, - 1, 0, 1, 1, 0, 0, 0], used = 5, cap = 8\<rparr> = Fin 1"
  by (simp add: kurtosis_s_def stat_eval)

lemma t1_m11: "kurtosis_term1 (Fin 0) \<lparr>data = [- 1, - 1, 0, 1, 1, 0, 0, 0], used = 5, cap = 8\<rparr> = Fin 5"
  by (simp add: kurtosis_term1_def s_m11 stat_eval rl_5_4)

lemma t2_m11: "kurtosis_term2 \<lparr>data = [- 1, - 1, 0, 1, 1, 0, 0, 0], used = 5, cap = 8\<rparr> = Fin 8"
  by (simp add: kurtosis_term2_def stat_eval)

lemma mean_2222: "mean \<lparr>data = [2, 2, 2, 2, 0, 0, 0, 0], used = 4, cap = 8\<rparr> = Inr (Fin 2)"
  by (simp add: mean_def sum_sa_def stat_eval)

lemma s_2222: "kurtosis_s (Fin 2) \<lparr>data = [2, 2, 2, 2, 0, 0, 0, 0], used = 4, cap = 8\<rparr> = Fin 0"
  by (simp add: kurtosis_s_def stat_eval)

lemma for_loop_const:
  assumes "\<And>i. i0 \<le> i \<Longrightarrow> i < n \<Longrightarrow> body i s = s"
  shows "for_loop i0 n body s = s"
  using assms
proof (induction "n - i0" arbitrary: i0)
  case 0
  then show ?case by (simp add: for_loop_done)
next
  case (Suc k)
  then have lt: "i0 < n" and k: "k = n - Suc i0" by simp_all
  have "body i0 s = s" using Suc.prems lt by simp
  then show ?case
    unfolding for_loop_step[OF lt] using Suc.hyps(1)[OF k] Suc.prems by simp
qed

lemma kurtosis_s_all_equal:
  assumes "4 \<le> used b" "used b < 2 ^ 64" "\<forall>i<used b. data b ! i = c"
  shows "kurtosis_s (Fin c) b = Fin 0"
proof -
  have body: "(let d = lsub (Fin (data b ! i)) (Fin c) in ladd (Fin 0) (lmul d d)) = Fin 0"
    if "i < used b" for i
  proof -
    have "data b ! i = c" using assms(3) that by blast
    then show ?thesis by (simp add: fp_ops)
  qed
  have s2: "for_loop 0 (used b)
              (\<lambda>i s2. let d = lsub (Fin (data b ! i)) (Fin c) in ladd s2 (lmul d d)) (Fin 0) = Fin 0"
    by (rule for_loop_const) (rule body)
  have n: "rl (real (used b)) = Fin (real (used b))" by (rule rl_nat[OF assms(2)])
  have e: "real (used b) - 1 = real (used b - 1)" using assms(1) by simp
  have r: "rl (real (used b - 1)) = Fin (real (used b - 1))"
    using assms(2) by (intro rl_nat) simp
  have "lsub (Fin (real (used b))) (Fin 1) = rl (real (used b) - 1)"
    by (simp add: fp_ops)
  then have n1: "lsub (Fin (real (used b))) (Fin 1) = Fin (real (used b - 1))"
    by (simp only: e r)
  have nz: "real (used b - 1) \<noteq> 0" using assms(1) by simp
  have dv: "ldiv (Fin 0) (Fin (real (used b - 1))) = Fin 0"
    using nz by (simp add: fp_ops)
  have "kurtosis_s (Fin c) b =
          (let n = Fin (real (used b)); s2 = Fin 0 in lsqrt (ldiv s2 (lsub n (Fin 1))))"
    unfolding kurtosis_s_def s2 n ..
  also have "\<dots> = lsqrt (Fin 0)" unfolding Let_def n1 dv ..
  also have "\<dots> = Fin 0" by (simp add: fp_ops)
  finally show ?thesis .
qed

lemma mean_77777: "mean \<lparr>data = [7, 7, 7, 7, 7, 0, 0, 0], used = 5, cap = 8\<rparr> = Inr (Fin 7)"
  by (simp add: mean_def sum_sa_def stat_eval)

subsection \<open>The loops of \<open>modes\<close>\<close>

lemma count_image_run:
  assumes "0 < n" "\<forall>y\<in>set zs. v < (y::real)"
  shows "count_list (replicate n v @ zs) ` set (replicate n v @ zs) =
           insert n (count_list zs ` set zs)"
proof -
  have s: "set (replicate n v @ zs) = insert v (set zs)" using assms(1) by auto
  have "count_list (replicate n v @ zs) ` set zs = count_list zs ` set zs"
    by (rule image_cong[OF refl]) (rule count_list_run(2)[OF assms(2)])
  then show ?thesis
    unfolding s image_insert count_list_run(1)[OF assms(2)] by simp
qed

lemma modes_best_sorted:
  assumes "u \<le> length d" "sorted (take u d)" "i \<le> u"
  shows "modes_best d u i best =
           Max (insert best (count_list (drop i (take u d)) ` set (drop i (take u d))))"
  using assms
proof (induction d u i best rule: modes_best.induct)
  case (1 d u i best)
  let ?xs = "take u d"
  show ?case
  proof (cases "i < u")
    case False
    then have "drop i ?xs = []" by simp
    then show ?thesis using False by (subst modes_best.simps) simp
  next
    case True
    define j where "j = run_end d u i (i + 1)"
    define zs where "zs = drop j ?xs"
    define v where "v = d ! i"
    define best' where "best' = (if j - i > best then j - i else best)"
    note run = run_end_run[OF "1.prems"(1,2) True, folded j_def, folded zs_def v_def]
    have n: "0 < j - i" using run(1) by simp
    have step: "modes_best d u i best = modes_best d u j best'"
      using True by (subst modes_best.simps) (simp add: j_def Let_def best'_def)
    have ih: "modes_best d u j best' = Max (insert best' (count_list zs ` set zs))"
      using "1.IH"[OF True j_def "1.prems"(1,2) run(2)] by (simp add: zs_def best'_def)
    have b: "best' = max best (j - i)" by (simp add: best'_def max_def)
    have fin: "finite (count_list zs ` set zs)" by simp
    have "Max (insert best' (count_list zs ` set zs)) =
          Max (insert best (insert (j - i) (count_list zs ` set zs)))"
    proof (cases "count_list zs ` set zs = {}")
      case True
      then show ?thesis unfolding b by (simp add: max.commute)
    next
      case False
      then show ?thesis unfolding b using fin by (simp add: max.assoc)
    qed
    then show ?thesis
      unfolding step ih run(3) count_image_run[OF n run(4)] .
  qed
qed

lemma modes_collect_sorted:
  assumes "u \<le> length d" "sorted (take u d)" "i \<le> u"
  shows "modes_collect d u best i res =
           res @ filter (\<lambda>v. count_list (drop i (take u d)) v = best)
                   (remdups_adj (drop i (take u d)))"
  using assms
proof (induction d u best i res rule: modes_collect.induct)
  case (1 d u best i res)
  let ?xs = "take u d"
  show ?case
  proof (cases "i < u")
    case False
    then have "drop i ?xs = []" by simp
    then show ?thesis using False by (subst modes_collect.simps) simp
  next
    case True
    define j where "j = run_end d u i (i + 1)"
    define zs where "zs = drop j ?xs"
    define v where "v = d ! i"
    define res' where "res' = (if j - i = best then res @ [v] else res)"
    note run = run_end_run[OF "1.prems"(1,2) True, folded j_def, folded zs_def v_def]
    have n: "0 < j - i" using run(1) by simp
    have step: "modes_collect d u best i res = modes_collect d u best j res'"
      using True by (subst modes_collect.simps) (simp add: j_def Let_def res'_def v_def)
    have ih: "modes_collect d u best j res' =
        res' @ filter (\<lambda>w. count_list zs w = best) (remdups_adj zs)"
      unfolding zs_def res'_def v_def by (rule "1.IH"[OF True j_def "1.prems"(1,2) run(2)])
    have rd: "remdups_adj (drop i ?xs) = v # remdups_adj zs"
      unfolding run(3) by (rule remdups_adj_run[OF n run(4)])
    have cv: "count_list (drop i ?xs) v = j - i"
      unfolding run(3) by (rule count_list_run(1)[OF run(4)])
    have cw: "filter (\<lambda>w. count_list (drop i ?xs) w = best) (remdups_adj zs) =
              filter (\<lambda>w. count_list zs w = best) (remdups_adj zs)"
      unfolding run(3)
    proof (rule filter_cong[OF refl])
      fix w assume "w \<in> set (remdups_adj zs)"
      then have "w \<in> set zs" by simp
      from count_list_run(2)[OF run(4) this, of "j - i"]
      show "(count_list (replicate (j - i) v @ zs) w = best) = (count_list zs w = best)"
        by (simp only:)
    qed
    show ?thesis
      unfolding step ih rd filter.simps cv cw by (simp add: res'_def)
  qed
qed

lemma ne_Nil_if_mem: "x \<in> set xs \<Longrightarrow> xs \<noteq> []"
  by auto

lemma modes_eq:
  assumes "valid b" "sorted (elements b)" "0 < used b"
  defines "M \<equiv> Max (count_list (elements b) ` set (elements b))"
  shows "modes b =
           Inr (if M \<le> 1 then []
                else filter (\<lambda>v. count_list (elements b) v = M) (remdups_adj (elements b)))"
    and "1 \<le> M"
proof -
  let ?xs = "elements b"
  have u: "used b \<le> length (data b)" using assms(1) by (simp add: valid_def)
  have s: "sorted (take (used b) (data b))" using assms(2) by (simp add: elements_def)
  have "length ?xs = used b" by (rule elements_length[OF assms(1)])
  then have ne: "?xs \<noteq> []" using assms(3) by (cases ?xs) simp_all
  then have ne': "count_list ?xs ` set ?xs \<noteq> {}" by simp
  have fin: "finite (count_list ?xs ` set ?xs)" by simp
  have "Max (insert 0 (count_list ?xs ` set ?xs)) = max 0 M"
    unfolding M_def by (rule Max_insert[OF fin ne'])
  then have best: "modes_best (data b) (used b) 0 0 = M"
    using modes_best_sorted[OF u s, of 0 0] by (simp add: elements_def)
  have col: "modes_collect (data b) (used b) M 0 [] =
               filter (\<lambda>v. count_list ?xs v = M) (remdups_adj ?xs)"
    using modes_collect_sorted[OF u s, of 0 M "[]"] by (simp add: elements_def)
  show "modes b =
           Inr (if M \<le> 1 then []
                else filter (\<lambda>v. count_list ?xs v = M) (remdups_adj ?xs))"
    using assms(3) by (simp add: modes_def requireSize_enough best col Let_def)
  obtain x where x: "x \<in> set ?xs" using ne by (cases ?xs) auto
  then have "1 \<le> count_list ?xs x" using count_list_0_iff[of ?xs x] by (cases "count_list ?xs x") auto
  also have "count_list ?xs x \<le> M"
    unfolding M_def using x by (intro Max_ge) auto
  finally show "1 \<le> M" .
qed

subsection \<open>Ranges of rounded values\<close>

lemma two_powr_neg: "2 powr real_of_int (- int k) = 1 / 2 ^ k"
  by (simp add: powr_minus powr_realpow inverse_eq_divide)

lemma two_powr_nat: "2 powr real_of_int (int k) = 2 ^ k"
  by (simp add: powr_realpow)

lemma rl_bounds:
  assumes "1 / 2 ^ k \<le> x" "x \<le> 2 ^ m" "k \<le> 16382" "m \<le> 16383"
  shows "\<exists>y. rl x = Fin y \<and> 1 / 2 ^ k \<le> y \<and> y \<le> 2 ^ m"
proof -
  have a: "2 powr real_of_int (- int k) \<le> x" unfolding two_powr_neg by (rule assms(1))
  have b: "x \<le> 2 powr real_of_int (int m)" unfolding two_powr_nat by (rule assms(2))
  have c: "1 - 16383 \<le> - int k" using assms(3) by simp
  have d: "int m \<le> 16383" using assms(4) by simp
  show ?thesis
    using rnd_pos[OF a b c d, of 64] unfolding rl_def two_powr_neg two_powr_nat by simp
qed

lemma rd_bounds:
  assumes "1 / 2 ^ k \<le> x" "x \<le> 2 ^ m" "k \<le> 1022" "m \<le> 1023"
  shows "\<exists>y. rd x = Fin y \<and> 1 / 2 ^ k \<le> y \<and> y \<le> 2 ^ m"
proof -
  have a: "2 powr real_of_int (- int k) \<le> x" unfolding two_powr_neg by (rule assms(1))
  have b: "x \<le> 2 powr real_of_int (int m)" unfolding two_powr_nat by (rule assms(2))
  have c: "1 - 1023 \<le> - int k" using assms(3) by simp
  have d: "int m \<le> 1023" using assms(4) by simp
  show ?thesis
    using rnd_pos[OF a b c d, of 53] unfolding rd_def two_powr_neg two_powr_nat by simp
qed

text \<open>Rounding a value to the multiple of \<open>2\<^sup>k\<close> below it.\<close>

lemma rnd_down:
  assumes "2 ^ e \<le> x" "x < 2 ^ Suc e" "x = real_of_int j * 2 ^ k + c" "0 \<le> c" "c < 2 ^ k / 2"
    and "e = k + (p - 1)" "0 < p" "int e \<le> E" "0 < E"
  shows "rnd p E x = Fin (real_of_int j * 2 ^ k)"
proof -
  have e1: "2 powr real_of_int (int e) \<le> \<bar>x\<bar>"
    unfolding two_powr_nat using assms(1) by simp
  have "2 powr real_of_int (int e + 1) = (2 ^ Suc e :: real)"
    using two_powr_nat[of "Suc e"] by (simp add: add.commute)
  then have e2: "\<bar>x\<bar> < 2 powr real_of_int (int e + 1)"
    using assms(1,2) by simp
  have en: "1 - E \<le> int e" using assms(9) by simp
  have "int e - (int p - 1) = int k" using assms(6,7) by simp
  then have q: "2 powr real_of_int (int e - (int p - 1)) = (2 ^ k :: real)"
    using two_powr_nat[of k] by simp
  have d: "x / 2 ^ k = real_of_int j + c / 2 ^ k"
    unfolding assms(3) by (simp add: add_divide_distrib)
  have c0: "0 \<le> c / 2 ^ k" using assms(4) by simp
  have c1: "c / 2 ^ k < 1 / 2" using assms(5) by (simp add: divide_simps)
  have t: "ties_even (x / 2 ^ k) = j"
    unfolding d using c0 c1 by (intro ties_even_near) simp_all
  have jx: "real_of_int j * 2 ^ k \<le> x" unfolding assms(3) using assms(4) by simp
  have j0: "0 \<le> real_of_int j * 2 ^ k"
  proof -
    have "2 ^ k / 2 \<le> (2 ^ k :: real)" by simp
    then have "c < 2 ^ k" using assms(5) by linarith
    then have "real_of_int j * 2 ^ k > x - 2 ^ k" unfolding assms(3) by simp
    moreover have "(2 ^ k :: real) \<le> 2 ^ e" unfolding assms(6) by (rule power_increasing) simp_all
    ultimately show ?thesis using assms(1) by linarith
  qed
  have "2 ^ Suc e \<le> (2 powr real_of_int (E + 1) :: real)"
  proof -
    have "(2 ^ Suc e :: real) = 2 powr real_of_int (int (Suc e))" by (simp only: two_powr_nat)
    also have "\<dots> \<le> 2 powr real_of_int (E + 1)" using assms(8) by simp
    finally show ?thesis .
  qed
  then have nov: "\<not> \<bar>real_of_int j * 2 ^ k\<bar> \<ge> 2 powr real_of_int (E + 1)"
    using jx j0 assms(2) by simp
  have "rnd p E x =
      (let q = 2 powr real_of_int (int e - (int p - 1));
           y = real_of_int (ties_even (x / q)) * q
       in if \<bar>y\<bar> \<ge> 2 powr real_of_int (E + 1)
          then (if x > 0 then PInf else NInf) else Fin y)"
    by (rule rnd_at[OF e1 e2 en])
  then show ?thesis
    unfolding Let_def q t using nov by (simp only: if_False)
qed

subsection \<open>Overflow in the median\<close>

text \<open>The literal \<^verbatim>\<open>1e-12\<close>.\<close>

lemma rd_eps: "\<exists>c. rd (1 / 10 ^ 12) = Fin c \<and> 0 < c \<and> c \<le> 1"
proof -
  have a: "2 powr real_of_int (- 40) \<le> (1 / 10 ^ 12 :: real)"
    using two_powr_neg[of 40] by simp
  have b: "(1 / 10 ^ 12 :: real) \<le> 2 powr real_of_int (- 39)"
    using two_powr_neg[of 39] by simp
  from rnd_pos[OF a b, of 1023 53]
  obtain c where c: "rd (1 / 10 ^ 12) = Fin c" "2 powr real_of_int (- 40) \<le> c"
    "c \<le> 2 powr real_of_int (- 39)"
    unfolding rd_def by auto
  have "0 < c" using c(2) by (smt (verit) powr_gt_zero)
  moreover have "c \<le> 1" using c(3) two_powr_neg[of 39] by simp
  ultimately show ?thesis using c(1) by blast
qed

lemma rd_overflow: "rd (2 ^ 1023 + 2 ^ 1023) = PInf"
proof -
  have x: "(2 ^ 1023 + 2 ^ 1023 :: real) = 2 ^ 1024" by simp
  have e1: "2 powr real_of_int 1024 \<le> \<bar>2 ^ 1024 :: real\<bar>"
    using two_powr_nat[of 1024] by simp
  have e2: "\<bar>2 ^ 1024 :: real\<bar> < 2 powr real_of_int (1024 + 1)"
    using two_powr_nat[of 1025] by simp
  have q: "2 powr real_of_int (1024 - (int 53 - 1)) = (2 ^ 972 :: real)"
    using two_powr_nat[of 972] by simp
  have t: "ties_even (2 ^ 1024 / 2 ^ 972) = 2 ^ 52"
  proof -
    have "(2 ^ 1024 / 2 ^ 972 :: real) = real_of_int (2 ^ 52)" by simp
    then show ?thesis by (simp only: ties_even_int)
  qed
  have y: "real_of_int (2 ^ 52) * 2 ^ 972 = (2 ^ 1024 :: real)" by simp
  have ov: "\<bar>2 ^ 1024 :: real\<bar> \<ge> 2 powr real_of_int (1023 + 1)"
    using two_powr_nat[of 1024] by simp
  have en: "1 - 1023 \<le> (1024::int)" by simp
  have r: "rnd 53 1023 (2 ^ 1024) =
      (let q = 2 powr real_of_int (1024 - (int 53 - 1));
           y = real_of_int (ties_even (2 ^ 1024 / q)) * q
       in if \<bar>y\<bar> \<ge> 2 powr real_of_int (1023 + 1)
          then (if (2 ^ 1024 :: real) > 0 then PInf else NInf) else Fin y)"
    by (rule rnd_at[OF e1 e2 en])
  have "rnd 53 1023 (2 ^ 1024) = PInf"
    unfolding r Let_def q t y using ov by (simp only: if_True zero_less_power zero_less_numeral)
  then show ?thesis unfolding x rd_def .
qed


lemma rd_absorb:
  assumes "0 \<le> c" "c \<le> 1"
  shows "rd (2 ^ 1023 + c) = Fin (2 ^ 1023)"
proof -
  have p1023: "2 powr real_of_int 1023 = (2 ^ 1023 :: real)"
    using two_powr_nat[of 1023] by simp
  have p1024: "2 powr real_of_int (1023 + 1) = (2 ^ 1024 :: real)"
    using two_powr_nat[of 1024] by simp
  have q: "2 powr real_of_int (1023 - (int 53 - 1)) = (2 ^ 971 :: real)"
    using two_powr_nat[of 971] by simp
  have e1: "2 powr real_of_int 1023 \<le> \<bar>2 ^ 1023 + c\<bar>"
    unfolding p1023 using assms by simp
  have e2: "\<bar>2 ^ 1023 + c\<bar> < 2 powr real_of_int (1023 + 1)"
    unfolding p1024 using assms by simp
  have en: "1 - 1023 \<le> (1023::int)" by simp
  have r: "rnd 53 1023 (2 ^ 1023 + c) =
      (let q = 2 powr real_of_int (1023 - (int 53 - 1));
           y = real_of_int (ties_even ((2 ^ 1023 + c) / q)) * q
       in if \<bar>y\<bar> \<ge> 2 powr real_of_int (1023 + 1)
          then (if 2 ^ 1023 + c > 0 then PInf else NInf) else Fin y)"
    by (rule rnd_at[OF e1 e2 en])
  have d: "(2 ^ 1023 + c) / 2 ^ 971 = real_of_int (2 ^ 52) + c / 2 ^ 971"
    by (simp add: add_divide_distrib)
  have c0: "0 \<le> c / 2 ^ 971" using assms by simp
  have "c / 2 ^ 971 \<le> 1 / 2 ^ 971" using assms by (simp add: divide_right_mono)
  also have "\<dots> < 1 / 2" by simp
  finally have c1: "c / 2 ^ 971 < 1 / 2" .
  have t: "ties_even ((2 ^ 1023 + c) / 2 ^ 971) = 2 ^ 52"
    unfolding d using c0 c1 by (intro ties_even_near) simp_all
  have y: "real_of_int (2 ^ 52) * 2 ^ 971 = (2 ^ 1023 :: real)" by simp
  have nov: "\<not> \<bar>2 ^ 1023 :: real\<bar> \<ge> 2 ^ 1024" by simp
  have "rnd 53 1023 (2 ^ 1023 + c) = Fin (2 ^ 1023)"
    unfolding r Let_def q t y p1024 using nov by (simp only: if_False)
  then show ?thesis unfolding rd_def .
qed

lemma median_overflow:
  "median \<lparr>data = [2 ^ 1023, 2 ^ 1023, 0, 0, 0, 0, 0, 0], used = 2, cap = 8\<rparr> = Inr PInf"
proof -
  have "dadd (Fin (2 ^ 1023)) (Fin (2 ^ 1023)) = PInf"
    unfolding dadd_def using rd_overflow by (simp only: fadd.simps)
  then show ?thesis
    by (simp add: median_def requireSize_def ddiv_def)
qed

lemma quartiles_overflow:
  "quartiles \<lparr>data = [2 ^ 1023, 2 ^ 1023, 0, 0, 0, 0, 0, 0], used = 2, cap = 8\<rparr> =
     Inl AssertionFailed"
proof -
  obtain c where c: "rd (1 / 10 ^ 12) = Fin c" "0 < c" "c \<le> 1"
    using rd_eps by blast
  have a: "dadd (Fin (2 ^ 1023)) (Fin c) = Fin (2 ^ 1023)"
    unfolding dadd_def using rd_absorb[of c] c by (simp only: fadd.simps less_imp_le)
  have nle: "\<not> fle PInf (Fin (2 ^ 1023))" by (simp add: fle_def)
  have c': "rd (1 / 1000000000000) = Fin c" using c(1) by simp
  show ?thesis
    unfolding quartiles_def median_overflow
    using a nle by (simp add: requireSize_def subMed_def c')
qed

subsection \<open>Rounding a scaled value\<close>

lemma ties_even_close:
  assumes "\<bar>c\<bar> < 1 / 2"
  shows "ties_even (real_of_int j + c) = j"
proof (cases "0 \<le> c")
  case True
  then show ?thesis using assms by (intro ties_even_near) simp_all
next
  case False
  then have f: "\<lfloor>real_of_int j + c\<rfloor> = j - 1" using assms by (intro floor_unique) auto
  show ?thesis using False assms by (simp add: ties_even_def f)
qed

text \<open>Rounding a value whose scaled form \<open>x \<times> 2\<^sup>k\<close> is known.\<close>

lemma rnd_frac:
  assumes "x * 2 ^ k = real_of_int j + c" "\<bar>c\<bar> < 1 / 2"
    and "2 ^ (p - 1) \<le> \<bar>x\<bar> * 2 ^ k" "\<bar>x\<bar> * 2 ^ k < 2 ^ p"
    and "0 < p" "1 - E \<le> int p - 1 - int k" "int p - int k \<le> E"
  shows "rnd p E x = Fin (real_of_int j / 2 ^ k)"
proof -
  define e where "e = int p - 1 - int k"
  have pk: "2 powr real_of_int (- int k) = 1 / (2 ^ k :: real)" by (rule two_powr_neg)
  have pe: "2 powr real_of_int e = 2 ^ (p - 1) / (2 ^ k :: real)"
  proof -
    have "real_of_int e = real (p - 1) - real k" using assms(5) by (simp add: e_def)
    then show ?thesis by (simp add: powr_diff powr_realpow)
  qed
  have pe1: "2 powr real_of_int (e + 1) = 2 ^ p / (2 ^ k :: real)"
  proof -
    have "real_of_int (e + 1) = real p - real k" using assms(5) by (simp add: e_def)
    then show ?thesis by (simp add: powr_diff powr_realpow)
  qed
  have e1: "2 powr real_of_int e \<le> \<bar>x\<bar>"
    unfolding pe using assms(3) by (simp add: divide_simps)
  have e2: "\<bar>x\<bar> < 2 powr real_of_int (e + 1)"
    unfolding pe1 using assms(4) by (simp add: divide_simps)
  have en: "1 - E \<le> e" unfolding e_def by (rule assms(6))
  have "e - (int p - 1) = - int k" by (simp add: e_def)
  then have q: "2 powr real_of_int (e - (int p - 1)) = 1 / (2 ^ k :: real)"
    using pk by simp
  have d: "x / (1 / 2 ^ k) = real_of_int j + c" using assms(1) by simp
  have t: "ties_even (x / (1 / 2 ^ k)) = j" unfolding d by (rule ties_even_close[OF assms(2)])
  have y: "real_of_int j * (1 / 2 ^ k) = real_of_int j / 2 ^ k" by simp
  have "\<bar>real_of_int j\<bar> \<le> \<bar>x * 2 ^ k\<bar> + \<bar>c\<bar>" unfolding assms(1) by linarith
  also have "\<dots> < 2 ^ p + 1 / 2" using assms(2,4) by (simp add: abs_mult)
  finally have "real_of_int \<bar>j\<bar> < real_of_int (2 ^ p) + 1 / 2" by simp
  then have "\<bar>j\<bar> \<le> 2 ^ p" by linarith
  then have "real_of_int \<bar>j\<bar> \<le> real_of_int (2 ^ p)" by (rule of_int_le_iff[THEN iffD2])
  then have "\<bar>real_of_int j\<bar> / 2 ^ k \<le> 2 ^ p / 2 ^ k" by (simp add: divide_right_mono)
  also have "\<dots> = 2 powr real_of_int (e + 1)" by (simp only: pe1)
  also have "\<dots> < 2 powr real_of_int (E + 1)" using assms(7) by (simp add: e_def)
  finally have nov: "\<not> \<bar>real_of_int j / 2 ^ k\<bar> \<ge> 2 powr real_of_int (E + 1)" by simp
  have "rnd p E x =
      (let q = 2 powr real_of_int (e - (int p - 1));
           y = real_of_int (ties_even (x / q)) * q
       in if \<bar>y\<bar> \<ge> 2 powr real_of_int (E + 1)
          then (if x > 0 then PInf else NInf) else Fin y)"
    by (rule rnd_at[OF e1 e2 en])
  then show ?thesis
    unfolding Let_def q t y using nov by (simp only: if_False)
qed

lemma rl_frac:
  assumes "x * 2 ^ k = real_of_int j + c" "\<bar>c\<bar> < 1 / 2"
    and "2 ^ 63 \<le> \<bar>x\<bar> * 2 ^ k" "\<bar>x\<bar> * 2 ^ k < 2 ^ 64" "k \<le> 16000"
  shows "rl x = Fin (real_of_int j / 2 ^ k)"
  unfolding rl_def using assms by (intro rnd_frac[where c = c]) simp_all

lemma rd_frac:
  assumes "x * 2 ^ k = real_of_int j + c" "\<bar>c\<bar> < 1 / 2"
    and "2 ^ 52 \<le> \<bar>x\<bar> * 2 ^ k" "\<bar>x\<bar> * 2 ^ k < 2 ^ 53" "k \<le> 1000"
  shows "rd x = Fin (real_of_int j / 2 ^ k)"
  unfolding rd_def using assms by (intro rnd_frac[where c = c]) simp_all

text \<open>The roundings of \<open>kurtosis\<close> and \<open>kurtosisExcess\<close> on \<open>{-1, -1, -1, 0, 1, 1, 1}\<close>.\<close>

lemma rl_7_15: "rl (7 / 15) = Fin (17216961135462248175 / 2 ^ 65)"
  using rl_frac[of "7 / 15" 65 17216961135462248175 "- 1 / 15"] by simp

lemma rl_t6: "rl (17216961135462248175 / 2 ^ 65 * 6) = Fin (12912720851596686131 / 2 ^ 62)"
  using rl_frac[of "17216961135462248175 / 2 ^ 65 * 6" 62 12912720851596686131 "1 / 4"] by simp

lemma rd_t1: "rd (12912720851596686131 / 2 ^ 62) = Fin (6305039478318694 / 2 ^ 51)"
  using rd_frac[of "12912720851596686131 / 2 ^ 62" 51 6305039478318694 "819 / 2048"] by simp

lemma rl_27_5: "rl (27 / 5) = Fin (12451552249753947341 / 2 ^ 61)"
  using rl_frac[of "27 / 5" 61 12451552249753947341 "- 1 / 5"] by simp

lemma rl_diff:
  "rl (12912720851596686131 / 2 ^ 62 - 12451552249753947341 / 2 ^ 61) =
     Fin (- 11990383647911208551 / 2 ^ 62)"
  using rl_frac[of "12912720851596686131 / 2 ^ 62 - 12451552249753947341 / 2 ^ 61" 62
      "- 11990383647911208551" 0] by simp

lemma rd_diff: "rd (- 11990383647911208551 / 2 ^ 62) = Fin (- 5854679515581645 / 2 ^ 51)"
  using rd_frac[of "- 11990383647911208551 / 2 ^ 62" 51 "- 5854679515581645" "409 / 2048"] by simp


lemma mean_m111: "mean \<lparr>data = [- 1, - 1, - 1, 0, 1, 1, 1, 0], used = 7, cap = 8\<rparr> = Inr (Fin 0)"
  by (simp add: mean_def sum_sa_def stat_eval)

lemma s_m111:
  "kurtosis_s (Fin 0) \<lparr>data = [- 1, - 1, - 1, 0, 1, 1, 1, 0], used = 7, cap = 8\<rparr> = Fin 1"
  by (simp add: kurtosis_s_def stat_eval)

lemma t1_m111:
  "kurtosis_term1 (Fin 0) \<lparr>data = [- 1, - 1, - 1, 0, 1, 1, 1, 0], used = 7, cap = 8\<rparr> =
     Fin (12912720851596686131 / 2 ^ 62)"
proof -
  have c: "ldiv (lmul (Fin 7) (ladd (Fin 7) (Fin 1)))
             (lmul (lmul (lsub (Fin 7) (Fin 1)) (lsub (Fin 7) (Fin 2))) (lsub (Fin 7) (Fin 3))) =
           Fin (17216961135462248175 / 2 ^ 65)"
    using rl_7_15 by (simp add: fp_ops fp_exact)
  have z: "for_loop 0 7
             (\<lambda>i sumZ4. ladd sumZ4
                (lmul (lmul (lmul
                   (ldiv (lsub (Fin ([- 1, - 1, - 1, 0, 1, 1, 1, 0] ! i)) (Fin 0)) (Fin 1))
                   (ldiv (lsub (Fin ([- 1, - 1, - 1, 0, 1, 1, 1, 0] ! i)) (Fin 0)) (Fin 1)))
                   (ldiv (lsub (Fin ([- 1, - 1, - 1, 0, 1, 1, 1, 0] ! i)) (Fin 0)) (Fin 1)))
                   (ldiv (lsub (Fin ([- 1, - 1, - 1, 0, 1, 1, 1, 0] ! i)) (Fin 0)) (Fin 1))))
             (Fin 0) = Fin 6"
    by (simp add: stat_eval)
  have n: "rl (real 7) = Fin 7" by (simp add: fp_exact)
  have m: "lmul (Fin (17216961135462248175 / 2 ^ 65)) (Fin 6) =
           Fin (12912720851596686131 / 2 ^ 62)"
    unfolding lmul_def fmul.simps by (rule rl_t6)
  have "kurtosis_term1 (Fin 0) \<lparr>data = [- 1, - 1, - 1, 0, 1, 1, 1, 0], used = 7, cap = 8\<rparr> =
        lmul (Fin (17216961135462248175 / 2 ^ 65)) (Fin 6)"
    unfolding kurtosis_term1_def s_m111 Let_def
    by (simp only: StatsArray.simps n c z)
  then show ?thesis by (simp only: m)
qed

lemma t2_m111:
  "kurtosis_term2 \<lparr>data = [- 1, - 1, - 1, 0, 1, 1, 1, 0], used = 7, cap = 8\<rparr> =
     Fin (12451552249753947341 / 2 ^ 61)"
  using rl_27_5 by (simp add: kurtosis_term2_def stat_eval)

lemma kurtosis_m111:
  "kurtosis \<lparr>data = [- 1, - 1, - 1, 0, 1, 1, 1, 0], used = 7, cap = 8\<rparr> =
     Inr (Fin (6305039478318694 / 2 ^ 51))"
proof -
  let ?b = "\<lparr>data = [- 1, - 1, - 1, 0, 1, 1, 1, 0], used = 7, cap = 8\<rparr>"
  have u: "4 \<le> used ?b" by simp
  have "kurtosis ?b = Inr (to_double (Fin (12912720851596686131 / 2 ^ 62)))"
    unfolding kurtosis_unfold(1)[OF u mean_m111] s_m111 t1_m111 by simp
  then show ?thesis unfolding to_double.simps rd_t1 .
qed

lemma kurtosisExcess_m111:
  "kurtosisExcess \<lparr>data = [- 1, - 1, - 1, 0, 1, 1, 1, 0], used = 7, cap = 8\<rparr> =
     Inr (Fin (- 5854679515581645 / 2 ^ 51))"
proof -
  let ?b = "\<lparr>data = [- 1, - 1, - 1, 0, 1, 1, 1, 0], used = 7, cap = 8\<rparr>"
  have u: "4 \<le> used ?b" by simp
  have d: "lsub (Fin (12912720851596686131 / 2 ^ 62)) (Fin (12451552249753947341 / 2 ^ 61)) =
           Fin (- 11990383647911208551 / 2 ^ 62)"
    unfolding lsub_def fsub_def fneg.simps fadd.simps using rl_diff by simp
  have "kurtosisExcess ?b =
          Inr (to_double (lsub (Fin (12912720851596686131 / 2 ^ 62))
                               (Fin (12451552249753947341 / 2 ^ 61))))"
    unfolding kurtosis_unfold(2)[OF u mean_m111] s_m111 t1_m111 t2_m111 by simp
  then show ?thesis unfolding d to_double.simps rd_diff .
qed


lemma rd_27_5: "rd (27 / 5) = Fin (6079859496950170 / 2 ^ 50)"
  using rd_frac[of "27 / 5" 50 6079859496950170 "- 2 / 5"] by simp

lemma dsub_m111:
  "dsub (Fin (6305039478318694 / 2 ^ 51)) (Fin (6079859496950170 / 2 ^ 50)) =
     Fin (- 5854679515581646 / 2 ^ 51)"
proof -
  have "rd (6305039478318694 / 2 ^ 51 - 6079859496950170 / 2 ^ 50) =
          Fin (- 5854679515581646 / 2 ^ 51)"
    using rd_frac[of "6305039478318694 / 2 ^ 51 - 6079859496950170 / 2 ^ 50" 51
        "- 5854679515581646" 0] by simp
  then show ?thesis
    unfolding dsub_def fsub_def fneg.simps fadd.simps by simp
qed

subsection \<open>Equal elements whose mean is rounded\<close>

text \<open>Five copies of \<open>2\<^sup>5\<^sup>3 - 1\<close>.\<close>

lemma rd_sum5: "rd 45035996273704955 = Fin 45035996273704952"
proof -
  have "rnd 53 1023 45035996273704955 = Fin (real_of_int 5629499534213119 * 2 ^ 3)"
    by (rule rnd_down[where e = 55 and c = 3]) simp_all
  then show ?thesis unfolding rd_def by simp
qed

lemma rd_quot5: "rd (45035996273704952 / 5) = Fin 9007199254740990"
proof -
  have "rnd 53 1023 (45035996273704952 / 5) = Fin (real_of_int 9007199254740990 * 2 ^ 0)"
    by (rule rnd_down[where e = 52 and c = "2 / 5"]) simp_all
  then show ?thesis unfolding rd_def by simp
qed

lemma mean_max5:
  "mean \<lparr>data = [9007199254740991, 9007199254740991, 9007199254740991, 9007199254740991,
                  9007199254740991, 0, 0, 0], used = 5, cap = 8\<rparr> = Inr (Fin 9007199254740990)"
proof -
  have s: "for_loop 0 5 (\<lambda>i s. ladd s (Fin ([9007199254740991, 9007199254740991,
             9007199254740991, 9007199254740991, 9007199254740991, 0, 0, 0] ! i))) (Fin 0) =
           Fin 45035996273704955"
    by (simp add: for_loop_fold upt_conv_Cons ladd_def fp_exact)
  show ?thesis
    by (simp add: mean_def sum_sa_def requireSize_def s rd_sum5 ddiv_def rd_numeral rd_quot5)
qed


lemma s_max5:
  "kurtosis_s (Fin 9007199254740990)
     \<lparr>data = [9007199254740991, 9007199254740991, 9007199254740991, 9007199254740991,
              9007199254740991, 0, 0, 0], used = 5, cap = 8\<rparr> = rl (sqrt (5 / 4))"
  by (simp add: kurtosis_s_def stat_eval rl_5_4 del: real_sqrt_divide)

lemma s_max5_bounds: "\<exists>s. rl (sqrt (5 / 4)) = Fin s \<and> 1 \<le> s \<and> s \<le> 2"
proof -
  have a: "1 / 2 ^ 0 \<le> sqrt (5 / 4 :: real)" by simp
  have "sqrt (5 / 4 :: real) \<le> sqrt 4" by (rule real_sqrt_le_mono) simp
  then have b: "sqrt (5 / 4 :: real) \<le> 2 ^ 1" by simp
  show ?thesis using rl_bounds[OF a b] by simp
qed

lemma t1_max5:
  "kurtosis_term1 (Fin 9007199254740990)
     \<lparr>data = [9007199254740991, 9007199254740991, 9007199254740991, 9007199254740991,
              9007199254740991, 0, 0, 0], used = 5, cap = 8\<rparr> =
   (let z = ldiv (Fin 1) (rl (sqrt (5 / 4))); w = lmul (lmul (lmul z z) z) z
    in lmul (Fin (5 / 4)) (ladd (ladd (ladd (ladd (ladd (Fin 0) w) w) w) w) w))"
proof -
  have c: "ldiv (lmul (Fin 5) (ladd (Fin 5) (Fin 1)))
             (lmul (lmul (lsub (Fin 5) (Fin 1)) (lsub (Fin 5) (Fin 2))) (lsub (Fin 5) (Fin 3))) =
           Fin (5 / 4)"
    using rl_5_4 by (simp add: fp_ops fp_exact)
  have d: "lsub (Fin 9007199254740991) (Fin 9007199254740990) = Fin 1"
    by (simp add: fp_ops)
  have n: "rl 5 = Fin 5" by (simp add: fp_exact)
  show ?thesis
    unfolding kurtosis_term1_def s_max5
    by (simp add: for_loop_fold upt_conv_Cons Let_def n c d del: real_sqrt_divide)
qed


lemma lmul_bounds:
  assumes "1 / 2 ^ k1 \<le> x" "x \<le> 1" "1 / 2 ^ k2 \<le> y" "y \<le> 1" "k1 + k2 \<le> 16382"
  shows "\<exists>w. lmul (Fin x) (Fin y) = Fin w \<and> 1 / 2 ^ (k1 + k2) \<le> w \<and> w \<le> 1"
proof -
  have x0: "0 \<le> x" using assms(1) by (smt (verit) divide_pos_pos zero_less_power zero_less_one zero_less_numeral)
  have "(1 / 2 ^ k1) * (1 / 2 ^ k2) \<le> x * y"
    using assms(1,3) x0 by (intro mult_mono) simp_all
  then have a: "1 / 2 ^ (k1 + k2) \<le> x * y" by (simp add: power_add)
  have y0: "0 \<le> y" using assms(3) by (smt (verit) divide_pos_pos zero_less_power zero_less_one zero_less_numeral)
  have "x * y \<le> 1 * 1" using assms(2,4) x0 y0 by (intro mult_mono) simp_all
  then have b: "x * y \<le> 2 ^ 0" by simp
  show ?thesis using rl_bounds[OF a b assms(5)] by (simp add: lmul_def)
qed

lemma ladd_bounds:
  assumes "0 \<le> x" "x \<le> 2 ^ m" "1 / 2 ^ k \<le> y" "y \<le> 1" "k \<le> 16382" "m < 16383"
  shows "\<exists>w. ladd (Fin x) (Fin y) = Fin w \<and> 1 / 2 ^ k \<le> w \<and> w \<le> 2 ^ Suc m"
proof -
  have a: "1 / 2 ^ k \<le> x + y" using assms(1,3) by linarith
  have "(1::real) \<le> 2 ^ m" by simp
  then have "x + y \<le> 2 ^ m + 2 ^ m" using assms(2,4) by linarith
  then have b: "x + y \<le> 2 ^ Suc m" by simp
  have c: "Suc m \<le> 16383" using assms(6) by simp
  show ?thesis using rl_bounds[OF a b assms(5) c] by (simp add: ladd_def)
qed

lemma kurtosis_max5_pos:
  "\<exists>k. kurtosis \<lparr>data = [9007199254740991, 9007199254740991, 9007199254740991,
                          9007199254740991, 9007199254740991, 0, 0, 0], used = 5, cap = 8\<rparr> =
          Inr (Fin k) \<and> 1 / 16 \<le> k"
proof -
  let ?b = "\<lparr>data = [9007199254740991, 9007199254740991, 9007199254740991,
                     9007199254740991, 9007199254740991, 0, 0, 0], used = 5, cap = 8\<rparr>"
  obtain s where s: "rl (sqrt (5 / 4)) = Fin s" "1 \<le> s" "s \<le> 2"
    using s_max5_bounds by blast
  have g: "\<not> feq (kurtosis_s (Fin 9007199254740990) ?b) (Fin 0)"
    unfolding s_max5 s(1) using s(2) by simp
  have z1: "1 / 2 ^ 1 \<le> 1 / s" using s(2,3) by (simp add: divide_simps)
  have z2: "1 / s \<le> 2 ^ 0" using s(2) by simp
  obtain z where z: "rl (1 / s) = Fin z" "1 / 2 ^ 1 \<le> z" "z \<le> 1"
    using rl_bounds[OF z1 z2] by auto
  have zz: "ldiv (Fin 1) (Fin s) = Fin z" using s(2) z(1) by (simp add: ldiv_def)
  obtain w2 where w2: "lmul (Fin z) (Fin z) = Fin w2" "1 / 2 ^ (1 + 1) \<le> w2" "w2 \<le> 1"
    using lmul_bounds[OF z(2,3) z(2,3)] by auto
  obtain w3 where w3: "lmul (Fin w2) (Fin z) = Fin w3" "1 / 2 ^ (1 + 1 + 1) \<le> w3" "w3 \<le> 1"
    using lmul_bounds[OF w2(2,3) z(2,3)] by auto
  obtain w where w: "lmul (Fin w3) (Fin z) = Fin w" "1 / 2 ^ (1 + 1 + 1 + 1) \<le> w" "w \<le> 1"
    using lmul_bounds[OF w3(2,3) z(2,3)] by auto
  have w': "1 / 2 ^ 4 \<le> w" using w(2) by simp
  have z0: "(0::real) \<le> 0" "(0::real) \<le> 2 ^ 0" by simp_all
  obtain a1 where a1: "ladd (Fin 0) (Fin w) = Fin a1" "1 / 2 ^ 4 \<le> a1" "a1 \<le> 2 ^ Suc 0"
    using ladd_bounds[OF z0 w' w(3)] by auto
  have p1: "0 \<le> a1" using a1(2) by (smt (verit) divide_pos_pos zero_less_power zero_less_one zero_less_numeral)
  obtain a2 where a2: "ladd (Fin a1) (Fin w) = Fin a2" "1 / 2 ^ 4 \<le> a2" "a2 \<le> 2 ^ Suc (Suc 0)"
    using ladd_bounds[OF p1 a1(3) w' w(3)] by auto
  have p2: "0 \<le> a2" using a2(2) by (smt (verit) divide_pos_pos zero_less_power zero_less_one zero_less_numeral)
  obtain a3 where a3: "ladd (Fin a2) (Fin w) = Fin a3" "1 / 2 ^ 4 \<le> a3"
      "a3 \<le> 2 ^ Suc (Suc (Suc 0))"
    using ladd_bounds[OF p2 a2(3) w' w(3)] by auto
  have p3: "0 \<le> a3" using a3(2) by (smt (verit) divide_pos_pos zero_less_power zero_less_one zero_less_numeral)
  obtain a4 where a4: "ladd (Fin a3) (Fin w) = Fin a4" "1 / 2 ^ 4 \<le> a4"
      "a4 \<le> 2 ^ Suc (Suc (Suc (Suc 0)))"
    using ladd_bounds[OF p3 a3(3) w' w(3)] by auto
  have p4: "0 \<le> a4" using a4(2) by (smt (verit) divide_pos_pos zero_less_power zero_less_one zero_less_numeral)
  obtain a5 where a5: "ladd (Fin a4) (Fin w) = Fin a5" "1 / 2 ^ 4 \<le> a5"
      "a5 \<le> 2 ^ Suc (Suc (Suc (Suc (Suc 0))))"
    using ladd_bounds[OF p4 a4(3) w' w(3)] by auto
  have a5': "a5 \<le> 32" using a5(3) by simp
  have t1: "1 / 2 ^ 4 \<le> 5 / 4 * a5" using a5(2) by simp
  have t2: "5 / 4 * a5 \<le> 2 ^ 6" using a5' by simp
  obtain t where t: "rl (5 / 4 * a5) = Fin t" "1 / 2 ^ 4 \<le> t" "t \<le> 2 ^ 6"
    using rl_bounds[OF t1 t2] by auto
  obtain k where k: "rd t = Fin k" "1 / 2 ^ 4 \<le> k" "k \<le> 2 ^ 6"
    using rd_bounds[OF t(2,3)] by auto
  have "kurtosis_term1 (Fin 9007199254740990) ?b = Fin t"
    unfolding t1_max5 s(1) Let_def zz w2(1) w3(1) w(1) a1(1) a2(1) a3(1) a4(1) a5(1)
    using t(1) by (simp add: lmul_def)
  then have "kurtosis ?b = Inr (Fin k)"
    using kurtosis_unfold(1)[of ?b, OF _ mean_max5] g k(1) by simp
  then show ?thesis using k(2) by auto
qed


section \<open>The claims\<close>

text \<open>
  Claim C1. Start from an empty buffer: a well-formed container of size \<open>0\<close>, which
  both constructors produce (\<open>valid_default\<close>, \<open>valid_cap0\<close>). For every sequence of
  \<open>insert\<close>, \<open>eraseValue\<close> and \<open>eraseAt\<close> calls whose assertions pass (\<open>count \<ge> 1\<close>,
  \<open>idx < size()\<close>; every \<open>real\<close> is finite), after every call, that is after the first
  \<open>k\<close> calls for every \<open>k\<close>, the active elements \<open>_data[0 .. _used)\<close> are in
  non-decreasing order and \<open>size() \<le> capacity()\<close>.
\<close>

theorem C1_sorted_and_bounded:
  assumes "valid b0" "size_sa b0 = 0" "run cs b0 = Inr b" "k \<le> length cs"
  shows "\<exists>bk. run (take k cs) b0 = Inr bk \<and>
           sorted (elements bk) \<and> size_sa bk \<le> capacity bk"
proof -
  have s0: "sorted (elements b0)"
    using assms(1,2) by (intro empty_sorted) (simp_all add: size_sa_def)
  obtain bk where bk: "run (take k cs) b0 = Inr bk"
    using run_prefix[OF assms(3)] by blast
  from run_invariant[OF assms(1) s0 bk]
  have "sorted (elements bk) \<and> size_sa bk \<le> capacity bk"
    by (simp add: valid_def size_sa_def capacity_def)
  with bk show ?thesis by blast
qed

theorem C1_sorted_and_bounded_witness:
  "valid StatsArray_default \<and> size_sa StatsArray_default = 0 \<and>
   run [Insert 5, Insert 3, Insert 8, Insert 3, EraseValue 3 1, EraseAt 1] StatsArray_default =
     Inr \<lparr>data = [3, 8, 8, 8, 0, 0, 0, 0], used = 2, cap = 8\<rparr> \<and>
   (4::nat) \<le> length [Insert 5, Insert 3, Insert 8, Insert 3, EraseValue 3 1, EraseAt 1] \<and>
   run [Insert 5, Insert 3, Insert 8, Insert 3] StatsArray_default =
     Inr \<lparr>data = [3, 3, 5, 8, 0, 0, 0, 0], used = 4, cap = 8\<rparr> \<and>
   (\<exists>bk. run (take 4 [Insert 5, Insert 3, Insert 8, Insert 3, EraseValue 3 1, EraseAt 1])
            StatsArray_default = Inr bk \<and>
      sorted (elements bk) \<and> size_sa bk \<le> capacity bk)"
proof -
  have h1: "valid StatsArray_default" by (rule valid_default(1))
  have h2: "size_sa StatsArray_default = 0" by (simp add: size_sa_def StatsArray_default_def)
  have h3: "run [Insert 5, Insert 3, Insert 8, Insert 3, EraseValue 3 1, EraseAt 1] StatsArray_default =
     Inr \<lparr>data = [3, 8, 8, 8, 0, 0, 0, 0], used = 2, cap = 8\<rparr>"
    by code_simp
  have h4: "(4::nat) \<le> length [Insert 5, Insert 3, Insert 8, Insert 3, EraseValue 3 1, EraseAt 1]"
    by simp
  have e: "run [Insert 5, Insert 3, Insert 8, Insert 3] StatsArray_default =
     Inr \<lparr>data = [3, 3, 5, 8, 0, 0, 0, 0], used = 4, cap = 8\<rparr>"
    by code_simp
  show ?thesis
    using h1 h2 h3 h4 e C1_sorted_and_bounded[OF h1 h2 h3 h4] by blast
qed
text \<open>
  Claim C2: for every buffer of size \<open>n \<ge> 2\<close>, \<open>quartiles()\<close> returns \<open>(Q1, Q2, Q3)\<close>
  with \<open>Q2\<close> the overall median and \<open>Q1\<close>, \<open>Q3\<close> the medians of the lower and upper
  halves, an even-length median being the average of the two central elements. The
  code computes that average as \<^verbatim>\<open>(a[m - 1] + a[m]) / 2.0\<close>, and the sum overflows when
  the two central elements are large. After \<^verbatim>\<open>insert(0x1p1023)\<close> twice the buffer holds
  \<open>{2\<^sup>1\<^sup>0\<^sup>2\<^sup>3, 2\<^sup>1\<^sup>0\<^sup>2\<^sup>3}\<close>; both halves have one element, so \<open>Q1 = Q3 = 2\<^sup>1\<^sup>0\<^sup>2\<^sup>3\<close>, but
  \<open>median()\<close> returns \<open>+inf\<close> instead of the average \<open>2\<^sup>1\<^sup>0\<^sup>2\<^sup>3\<close>, and \<open>quartiles()\<close> stops at
  its own \<^verbatim>\<open>assert(q1 <= q2 + 1e-12 && q2 <= q3 + 1e-12)\<close>, against its comment
  \<^verbatim>\<open>Post: returns (Q1, Q2, Q3) using Tukey method; Q1 <= Q2 <= Q3\<close>.
\<close>

theorem C2_quartiles_overflow:
  "run [Insert (2 ^ 1023), Insert (2 ^ 1023)] StatsArray_default =
     Inr \<lparr>data = [2 ^ 1023, 2 ^ 1023, 0, 0, 0, 0, 0, 0], used = 2, cap = 8\<rparr> \<and>
   subMed [2 ^ 1023, 2 ^ 1023, 0, 0, 0, 0, 0, 0] 0 0 = Fin (2 ^ 1023) \<and>
   subMed [2 ^ 1023, 2 ^ 1023, 0, 0, 0, 0, 0, 0] 1 1 = Fin (2 ^ 1023) \<and>
   median \<lparr>data = [2 ^ 1023, 2 ^ 1023, 0, 0, 0, 0, 0, 0], used = 2, cap = 8\<rparr> = Inr PInf \<and>
   quartiles \<lparr>data = [2 ^ 1023, 2 ^ 1023, 0, 0, 0, 0, 0, 0], used = 2, cap = 8\<rparr> =
     Inl AssertionFailed"
proof -
  have r: "run [Insert (2 ^ 1023), Insert (2 ^ 1023)] StatsArray_default =
     Inr \<lparr>data = [2 ^ 1023, 2 ^ 1023, 0, 0, 0, 0, 0, 0], used = 2, cap = 8\<rparr>"
    by code_simp
  have q1: "subMed [2 ^ 1023, 2 ^ 1023, 0, 0, 0, 0, 0, 0] 0 0 = Fin (2 ^ 1023)"
    by (simp add: subMed_def)
  have q3: "subMed [2 ^ 1023, 2 ^ 1023, 0, 0, 0, 0, 0, 0] 1 1 = Fin (2 ^ 1023)"
    by (simp add: subMed_def)
  show ?thesis
    by (intro conjI) (rule r, rule q1, rule q3, rule median_overflow, rule quartiles_overflow)
qed


text \<open>
  Claim C3, as stated: on a non-empty buffer whose mean is exactly zero,
  \<open>coefficientOfVariation\<close> and \<open>relativeStdDeviation\<close> raise an error of a type of its
  own, distinct from the empty-dataset and the insufficient-data errors. The class has
  two exception types only, and on \<open>{-5, 5}\<close> the exception thrown is an
  \<open>InsufficientDataException\<close>.
\<close>

theorem C3_mean_zero_counterexample:
  "run [Insert (- 5), Insert 5] StatsArray_default =
     Inr \<lparr>data = [- 5, 5, 0, 0, 0, 0, 0, 0], used = 2, cap = 8\<rparr> \<and>
   mean \<lparr>data = [- 5, 5, 0, 0, 0, 0, 0, 0], used = 2, cap = 8\<rparr> = Inr (Fin 0) \<and>
   coefficientOfVariation True \<lparr>data = [- 5, 5, 0, 0, 0, 0, 0, 0], used = 2, cap = 8\<rparr> =
     Inl (InsufficientDataException ''Coefficient of Variation undefined when mean is 0.'')"
proof -
  have r: "run [Insert (- 5), Insert 5] StatsArray_default =
     Inr \<lparr>data = [- 5, 5, 0, 0, 0, 0, 0, 0], used = 2, cap = 8\<rparr>"
    by code_simp
  have m: "mean \<lparr>data = [- 5, 5, 0, 0, 0, 0, 0, 0], used = 2, cap = 8\<rparr> = Inr (Fin 0)"
    by (simp add: mean_def sum_sa_def requireSize_def for_loop_fold upt_conv_Cons fp_ops fp_exact)
  have c: "coefficientOfVariation True \<lparr>data = [- 5, 5, 0, 0, 0, 0, 0, 0], used = 2, cap = 8\<rparr> =
     Inl (InsufficientDataException ''Coefficient of Variation undefined when mean is 0.'')"
    by (simp add: coefficientOfVariation_def requireSize_def m)
  show ?thesis using r m c by simp
qed

text \<open>
  Claim C3, amended: on a non-empty buffer whose mean (as \<open>mean()\<close> computes it) is
  exactly zero, \<open>coefficientOfVariation\<close> and \<open>relativeStdDeviation\<close> throw, for either
  value of the sample flag, an \<open>InsufficientDataException\<close> with the message
  "Coefficient of Variation undefined when mean is 0."; this is the exception type of the
  below-minimum sizes, and it is not the \<open>DatasetEmptyException\<close>.
\<close>

theorem C3_mean_zero_amended:
  assumes "size_sa b \<ge> 1" "mean b = Inr (Fin 0)"
  shows "coefficientOfVariation sample b =
           Inl (InsufficientDataException ''Coefficient of Variation undefined when mean is 0.'') \<and>
         relativeStdDeviation sample b =
           Inl (InsufficientDataException ''Coefficient of Variation undefined when mean is 0.'')"
proof -
  have "requireSize 1 ''Coefficient of Variation'' b = None"
    using assms(1) by (simp add: requireSize_def size_sa_def)
  then have cv: "coefficientOfVariation sample b =
           Inl (InsufficientDataException ''Coefficient of Variation undefined when mean is 0.'')"
    using assms(2) by (simp add: coefficientOfVariation_def)
  then show ?thesis by (simp add: relativeStdDeviation_def)
qed

theorem C3_mean_zero_amended_witness:
  "size_sa \<lparr>data = [- 5, 5, 0, 0, 0, 0, 0, 0], used = 2, cap = 8\<rparr> \<ge> 1 \<and>
   mean \<lparr>data = [- 5, 5, 0, 0, 0, 0, 0, 0], used = 2, cap = 8\<rparr> = Inr (Fin 0) \<and>
   coefficientOfVariation False \<lparr>data = [- 5, 5, 0, 0, 0, 0, 0, 0], used = 2, cap = 8\<rparr> =
     Inl (InsufficientDataException ''Coefficient of Variation undefined when mean is 0.'') \<and>
   relativeStdDeviation False \<lparr>data = [- 5, 5, 0, 0, 0, 0, 0, 0], used = 2, cap = 8\<rparr> =
     Inl (InsufficientDataException ''Coefficient of Variation undefined when mean is 0.'')"
proof -
  have h1: "size_sa \<lparr>data = [- 5, 5, 0, 0, 0, 0, 0, 0], used = 2, cap = 8\<rparr> \<ge> 1"
    by (simp add: size_sa_def)
  have h2: "mean \<lparr>data = [- 5, 5, 0, 0, 0, 0, 0, 0], used = 2, cap = 8\<rparr> = Inr (Fin 0)"
    by (simp add: mean_def sum_sa_def requireSize_def for_loop_fold upt_conv_Cons fp_ops fp_exact)
  show ?thesis
    using h1 h2 C3_mean_zero_amended[OF h1 h2, of False] by simp
qed

text \<open>
  Claim C4: when an insert grows the backing store, the new capacity is
  \<open>max(8, 2 \<times> old capacity)\<close>, also for a buffer constructed with an explicit initial
  capacity. The code at \<open>StatsArray(1)\<close>: the constructor yields capacity \<open>1\<close> (its
  comment promises \<open>max(8, cap0)\<close>), the first insert fills the only slot, and the
  second insert grows the store to capacity \<open>2\<close> (the comment of \<open>growIfNeeded\<close>
  promises a capacity of at least \<open>8\<close>), whereas \<open>max(8, 2 \<times> 1) = 8\<close>. The element
  already stored is kept, in place.
\<close>

theorem C4_growth_from_capacity_one:
  "capacity (StatsArray_cap0 1) = 1 \<and>
   insert_sa 1 (StatsArray_cap0 1) = Inr \<lparr>data = [1], used = 1, cap = 1\<rparr> \<and>
   insert_sa 2 \<lparr>data = [1], used = 1, cap = 1\<rparr> = Inr \<lparr>data = [1, 2], used = 2, cap = 2\<rparr> \<and>
   capacity \<lparr>data = [1, 2], used = 2, cap = 2\<rparr> = 2 \<and>
   max 8 (2 * capacity \<lparr>data = [1], used = 1, cap = 1\<rparr>) = 8"
  by code_simp
text \<open>
  Claim C5, as stated: for every buffer of size \<open>n \<ge> 4\<close>, also one whose elements are
  all equal, \<open>kurtosisExcess()\<close> equals \<open>kurtosis()\<close> minus \<open>3(n-1)\<^sup>2 / ((n-2)(n-3))\<close>.
  On \<open>{1, 1, 1, 1}\<close> both functions take the guard \<^verbatim>\<open>if (s == 0.0L) return 0.0;\<close> and
  return \<open>0\<close>, while \<open>0\<close> minus the correction term is \<open>-13.5\<close>. On
  \<open>{-1, -1, -1, 0, 1, 1, 1}\<close> the guard is not taken: \<open>kurtosis()\<close> returns the
  \<^verbatim>\<open>double\<close> \<open>2.8\<close> and \<open>kurtosisExcess()\<close> the \<^verbatim>\<open>double\<close> \<open>-2.6\<close>, the roundings of
  \<open>term1\<close> and of \<open>term1 - term2\<close>; the correction term is \<open>27 / 5\<close>, and the two
  results differ by it neither exactly nor when the difference is taken in \<^verbatim>\<open>double\<close>
  arithmetic, which gives the \<^verbatim>\<open>double\<close> just below \<open>-2.6\<close>.
\<close>

theorem C5_excess_counterexample:
  "kurtosis \<lparr>data = [1, 1, 1, 1, 0, 0, 0, 0], used = 4, cap = 8\<rparr> = Inr (Fin 0) \<and>
   kurtosisExcess \<lparr>data = [1, 1, 1, 1, 0, 0, 0, 0], used = 4, cap = 8\<rparr> = Inr (Fin 0) \<and>
   (0::real) \<noteq> 0 - 3 * (4 - 1)\<^sup>2 / ((4 - 2) * (4 - 3)) \<and>
   kurtosis \<lparr>data = [- 1, - 1, - 1, 0, 1, 1, 1, 0], used = 7, cap = 8\<rparr> =
     Inr (Fin (6305039478318694 / 2 ^ 51)) \<and>
   kurtosisExcess \<lparr>data = [- 1, - 1, - 1, 0, 1, 1, 1, 0], used = 7, cap = 8\<rparr> =
     Inr (Fin (- 5854679515581645 / 2 ^ 51)) \<and>
   (- 5854679515581645 / 2 ^ 51 :: real) \<noteq>
     6305039478318694 / 2 ^ 51 - 3 * (7 - 1)\<^sup>2 / ((7 - 2) * (7 - 3)) \<and>
   rd (3 * (7 - 1)\<^sup>2 / ((7 - 2) * (7 - 3))) = Fin (6079859496950170 / 2 ^ 50) \<and>
   dsub (Fin (6305039478318694 / 2 ^ 51)) (Fin (6079859496950170 / 2 ^ 50)) \<noteq>
     Fin (- 5854679515581645 / 2 ^ 51)"
proof -
  let ?b = "\<lparr>data = [1, 1, 1, 1, 0, 0, 0, 0], used = 4, cap = 8\<rparr>"
  have u: "4 \<le> used ?b" by simp
  have a: "kurtosis ?b = Inr (Fin 0)" "kurtosisExcess ?b = Inr (Fin 0)"
    unfolding kurtosis_unfold[OF u mean_1111] s_1111 by simp_all
  have b: "(0::real) \<noteq> 0 - 3 * (4 - 1)\<^sup>2 / ((4 - 2) * (4 - 3))" by simp
  have c: "(- 5854679515581645 / 2 ^ 51 :: real) \<noteq>
     6305039478318694 / 2 ^ 51 - 3 * (7 - 1)\<^sup>2 / ((7 - 2) * (7 - 3))" by simp
  have "(3 * (7 - 1)\<^sup>2 / ((7 - 2) * (7 - 3)) :: real) = 27 / 5" by simp
  then have d: "rd (3 * (7 - 1)\<^sup>2 / ((7 - 2) * (7 - 3))) = Fin (6079859496950170 / 2 ^ 50)"
    using rd_27_5 by simp
  have e: "dsub (Fin (6305039478318694 / 2 ^ 51)) (Fin (6079859496950170 / 2 ^ 50)) \<noteq>
     Fin (- 5854679515581645 / 2 ^ 51)"
    unfolding dsub_m111 by simp
  show ?thesis
    by (intro conjI) (rule a(1), rule a(2), rule b, rule kurtosis_m111, rule kurtosisExcess_m111,
        rule c, rule d, rule e)
qed

text \<open>
  Claim C5, amended: for every buffer of size \<open>n \<ge> 4\<close>, with \<open>s\<close>, \<open>term1\<close> and
  \<open>term2\<close> the \<^verbatim>\<open>long double\<close> values that the two functions compute (\<open>term2\<close> is
  \<open>3(n-1)(n-1) / ((n-2)(n-3))\<close> evaluated in \<^verbatim>\<open>long double\<close>): when \<open>s == 0\<close> both
  functions return \<open>0\<close> and the correction term is not subtracted; otherwise
  \<open>kurtosis()\<close> returns \<open>(double)term1\<close> and \<open>kurtosisExcess()\<close> returns
  \<open>(double)(term1 - term2)\<close>, the difference being rounded once in \<^verbatim>\<open>long double\<close> and
  once to \<^verbatim>\<open>double\<close>.
\<close>

theorem C5_excess_amended:
  assumes "size_sa b \<ge> 4" "mean b = Inr mu"
  shows "(feq (kurtosis_s mu b) (Fin 0) \<longrightarrow>
            kurtosis b = Inr (Fin 0) \<and> kurtosisExcess b = Inr (Fin 0)) \<and>
         (\<not> feq (kurtosis_s mu b) (Fin 0) \<longrightarrow>
            kurtosis b = Inr (to_double (kurtosis_term1 mu b)) \<and>
            kurtosisExcess b =
              Inr (to_double (lsub (kurtosis_term1 mu b) (kurtosis_term2 b))))"
proof -
  have u: "4 \<le> used b" using assms(1) by (simp add: size_sa_def)
  show ?thesis
    unfolding kurtosis_unfold[OF u assms(2)] by simp
qed

theorem C5_excess_amended_witness:
  "size_sa \<lparr>data = [2, 2, 2, 2, 0, 0, 0, 0], used = 4, cap = 8\<rparr> \<ge> 4 \<and>
   mean \<lparr>data = [2, 2, 2, 2, 0, 0, 0, 0], used = 4, cap = 8\<rparr> = Inr (Fin 2) \<and>
   kurtosis_s (Fin 2) \<lparr>data = [2, 2, 2, 2, 0, 0, 0, 0], used = 4, cap = 8\<rparr> = Fin 0 \<and>
   kurtosis \<lparr>data = [2, 2, 2, 2, 0, 0, 0, 0], used = 4, cap = 8\<rparr> = Inr (Fin 0) \<and>
   kurtosisExcess \<lparr>data = [2, 2, 2, 2, 0, 0, 0, 0], used = 4, cap = 8\<rparr> = Inr (Fin 0) \<and>
   size_sa \<lparr>data = [- 1, - 1, 0, 1, 1, 0, 0, 0], used = 5, cap = 8\<rparr> \<ge> 4 \<and>
   mean \<lparr>data = [- 1, - 1, 0, 1, 1, 0, 0, 0], used = 5, cap = 8\<rparr> = Inr (Fin 0) \<and>
   kurtosis_s (Fin 0) \<lparr>data = [- 1, - 1, 0, 1, 1, 0, 0, 0], used = 5, cap = 8\<rparr> = Fin 1 \<and>
   kurtosis_term1 (Fin 0) \<lparr>data = [- 1, - 1, 0, 1, 1, 0, 0, 0], used = 5, cap = 8\<rparr> = Fin 5 \<and>
   kurtosis_term2 \<lparr>data = [- 1, - 1, 0, 1, 1, 0, 0, 0], used = 5, cap = 8\<rparr> = Fin 8 \<and>
   kurtosis \<lparr>data = [- 1, - 1, 0, 1, 1, 0, 0, 0], used = 5, cap = 8\<rparr> = Inr (Fin 5) \<and>
   kurtosisExcess \<lparr>data = [- 1, - 1, 0, 1, 1, 0, 0, 0], used = 5, cap = 8\<rparr> = Inr (Fin (- 3))"
proof -
  let ?a = "\<lparr>data = [2, 2, 2, 2, 0, 0, 0, 0], used = 4, cap = 8\<rparr>"
  let ?b = "\<lparr>data = [- 1, - 1, 0, 1, 1, 0, 0, 0], used = 5, cap = 8\<rparr>"
  have a1: "size_sa ?a \<ge> 4" by (simp add: size_sa_def)
  have a2: "feq (kurtosis_s (Fin 2) ?a) (Fin 0)" unfolding s_2222 by simp
  have a3: "kurtosis ?a = Inr (Fin 0) \<and> kurtosisExcess ?a = Inr (Fin 0)"
    using C5_excess_amended[OF a1 mean_2222] a2 by blast
  have b1: "size_sa ?b \<ge> 4" by (simp add: size_sa_def)
  have b2: "\<not> feq (kurtosis_s (Fin 0) ?b) (Fin 0)" unfolding s_m11 by simp
  have "kurtosis ?b = Inr (to_double (kurtosis_term1 (Fin 0) ?b)) \<and>
        kurtosisExcess ?b = Inr (to_double (lsub (kurtosis_term1 (Fin 0) ?b) (kurtosis_term2 ?b)))"
    using C5_excess_amended[OF b1 mean_m11] b2 by blast
  then have b3: "kurtosis ?b = Inr (Fin 5) \<and> kurtosisExcess ?b = Inr (Fin (- 3))"
    unfolding t1_m11 t2_m11 by (simp add: fp_ops fp_exact)
  show ?thesis
    using a1 mean_2222 s_2222 a3 b1 mean_m11 s_m11 t1_m11 t2_m11 b3 by blast
qed

text \<open>
  Claim C6. On a buffer that satisfies the class invariant (well-formed and sorted), for
  every value \<open>v\<close> and every \<open>count \<ge> 1\<close>, \<open>eraseValue(v, count)\<close> returns
  \<open>min(count, number of occurrences of v)\<close> (hence \<open>0\<close> when \<open>v\<close> is absent), removes
  exactly that many elements, all equal to \<open>v\<close>, and leaves the other elements in
  place: the elements different from \<open>v\<close> are the same list as before and the result is
  sorted.
\<close>

theorem C6_eraseValue_removes_min:
  fixes v :: real
  assumes "valid b" "sorted (elements b)" "cnt \<ge> 1"
  shows "\<exists>b'. eraseValue v cnt b = Inr (b', min cnt (count_list (elements b) v)) \<and>
           size_sa b' = size_sa b - min cnt (count_list (elements b) v) \<and>
           mset (elements b') + replicate_mset (min cnt (count_list (elements b) v)) v =
             mset (elements b) \<and>
           filter (\<lambda>y. y \<noteq> v) (elements b') = filter (\<lambda>y. y \<noteq> v) (elements b) \<and>
           sorted (elements b')"
  using eraseValue_spec[OF assms, of v] unfolding size_sa_def by blast

theorem C6_eraseValue_removes_min_witness:
  "valid \<lparr>data = [3, 3, 3, 5, 8, 0, 0, 0], used = 5, cap = 8\<rparr> \<and>
   sorted (elements \<lparr>data = [3, 3, 3, 5, 8, 0, 0, 0], used = 5, cap = 8\<rparr>) \<and>
   (2::nat) \<ge> 1 \<and>
   eraseValue 3 2 \<lparr>data = [3, 3, 3, 5, 8, 0, 0, 0], used = 5, cap = 8\<rparr> =
     Inr (\<lparr>data = [3, 5, 8, 8, 8, 0, 0, 0], used = 3, cap = 8\<rparr>, 2) \<and>
   (\<exists>b'. eraseValue 3 2 \<lparr>data = [3, 3, 3, 5, 8, 0, 0, 0], used = 5, cap = 8\<rparr> =
       Inr (b', min 2 (count_list (elements \<lparr>data = [3, 3, 3, 5, 8, 0, 0, 0], used = 5, cap = 8\<rparr>) 3)) \<and>
     size_sa b' = size_sa \<lparr>data = [3, 3, 3, 5, 8, 0, 0, 0], used = 5, cap = 8\<rparr> -
        min 2 (count_list (elements \<lparr>data = [3, 3, 3, 5, 8, 0, 0, 0], used = 5, cap = 8\<rparr>) 3) \<and>
     mset (elements b') +
        replicate_mset (min 2 (count_list (elements \<lparr>data = [3, 3, 3, 5, 8, 0, 0, 0], used = 5, cap = 8\<rparr>) 3)) 3 =
        mset (elements \<lparr>data = [3, 3, 3, 5, 8, 0, 0, 0], used = 5, cap = 8\<rparr>) \<and>
     filter (\<lambda>y. y \<noteq> 3) (elements b') =
        filter (\<lambda>y. y \<noteq> 3) (elements \<lparr>data = [3, 3, 3, 5, 8, 0, 0, 0], used = 5, cap = 8\<rparr>) \<and>
     sorted (elements b'))"
proof -
  let ?b = "\<lparr>data = [3, 3, 3, 5, 8, 0, 0, 0], used = 5, cap = 8\<rparr>"
  have h1: "valid ?b" by (simp add: valid_def)
  have h2: "sorted (elements ?b)" by (simp add: elements_def)
  have h3: "(2::nat) \<ge> 1" by simp
  have e: "eraseValue 3 2 ?b = Inr (\<lparr>data = [3, 5, 8, 8, 8, 0, 0, 0], used = 3, cap = 8\<rparr>, 2)"
    by code_simp
  show ?thesis
    using h1 h2 h3 e C6_eraseValue_removes_min[OF h1 h2 h3, of 3] by blast
qed

text \<open>
  Claim C7. On a non-empty buffer (well-formed and sorted, as the class keeps it), where
  the run of a value is the block of all its occurrences and so has the length
  \<open>count_list\<close> gives, \<open>modes()\<close> returns the empty list exactly when the longest run
  has length \<open>1\<close>; otherwise it returns, in ascending order and without repetition,
  exactly the values whose run is as long as the longest run.
\<close>

theorem C7_modes:
  assumes "valid b" "sorted (elements b)" "size_sa b \<ge> 1"
  shows "\<exists>res. modes b = Inr res \<and>
           (res = [] \<longleftrightarrow> Max (count_list (elements b) ` set (elements b)) = 1) \<and>
           (Max (count_list (elements b) ` set (elements b)) \<noteq> 1 \<longrightarrow>
              sorted res \<and> distinct res \<and>
              set res = {v \<in> set (elements b).
                           count_list (elements b) v =
                             Max (count_list (elements b) ` set (elements b))})"
proof -
  let ?xs = "elements b"
  define M where "M = Max (count_list ?xs ` set ?xs)"
  define res where "res = (if M \<le> 1 then []
                else filter (\<lambda>v. count_list ?xs v = M) (remdups_adj ?xs))"
  have u: "0 < used b" using assms(3) by (simp add: size_sa_def)
  note m = modes_eq[OF assms(1,2) u, folded M_def, folded res_def]
  have "length ?xs = used b" by (rule elements_length[OF assms(1)])
  then have ne: "?xs \<noteq> []" using u by (cases ?xs) simp_all
  have attained: "M \<in> count_list ?xs ` set ?xs"
    unfolding M_def using ne by (intro Max_in) auto
  have empty: "res = [] \<longleftrightarrow> M = 1"
  proof (cases "M \<le> 1")
    case True
    then show ?thesis using m(2) by (simp add: res_def)
  next
    case False
    obtain v where v: "v \<in> set ?xs" "count_list ?xs v = M" using attained by auto
    then have "v \<in> set (filter (\<lambda>v. count_list ?xs v = M) (remdups_adj ?xs))" by simp
    then have "filter (\<lambda>v. count_list ?xs v = M) (remdups_adj ?xs) \<noteq> []"
      by (rule ne_Nil_if_mem)
    then have "res \<noteq> []" using False unfolding res_def by simp
    then show ?thesis using False by simp
  qed
  have rest: "sorted res \<and> distinct res \<and> set res = {v \<in> set ?xs. count_list ?xs v = M}"
    if "M \<noteq> 1"
  proof -
    have r: "res = filter (\<lambda>v. count_list ?xs v = M) (remdups_adj ?xs)"
      using that m(2) by (simp add: res_def)
    have "sorted_wrt (<) res"
      unfolding r by (intro sorted_wrt_filter strict_sorted_remdups_adj assms(2))
    then have "sorted res \<and> distinct res" using strict_sorted_iff by blast
    moreover have "set res = {v \<in> set ?xs. count_list ?xs v = M}" unfolding r by auto
    ultimately show ?thesis by blast
  qed
  show ?thesis
    using m(1) empty rest unfolding M_def by blast
qed

theorem C7_modes_witness:
  "valid \<lparr>data = [3, 3, 5, 8, 8, 0, 0, 0], used = 5, cap = 8\<rparr> \<and>
   sorted (elements \<lparr>data = [3, 3, 5, 8, 8, 0, 0, 0], used = 5, cap = 8\<rparr>) \<and>
   size_sa \<lparr>data = [3, 3, 5, 8, 8, 0, 0, 0], used = 5, cap = 8\<rparr> \<ge> 1 \<and>
   modes \<lparr>data = [3, 3, 5, 8, 8, 0, 0, 0], used = 5, cap = 8\<rparr> = Inr [3, 8] \<and>
   (\<exists>res. modes \<lparr>data = [3, 3, 5, 8, 8, 0, 0, 0], used = 5, cap = 8\<rparr> = Inr res \<and>
      (res = []) =
      (Max (count_list (elements \<lparr>data = [3, 3, 5, 8, 8, 0, 0, 0], used = 5, cap = 8\<rparr>) `
            set (elements \<lparr>data = [3, 3, 5, 8, 8, 0, 0, 0], used = 5, cap = 8\<rparr>)) = 1))"
proof -
  let ?b = "\<lparr>data = [3, 3, 5, 8, 8, 0, 0, 0], used = 5, cap = 8\<rparr>"
  have h1: "valid ?b" by (simp add: valid_def)
  have h2: "sorted (elements ?b)" by (simp add: elements_def)
  have h3: "size_sa ?b \<ge> 1" by (simp add: size_sa_def)
  have e: "modes ?b = Inr [3, 8]" by code_simp
  show ?thesis
    using h1 h2 h3 e C7_modes[OF h1 h2 h3] by blast
qed

text \<open>
  Claim C8. On a buffer of size \<open>0\<close> every statistic throws
  \<open>DatasetEmptyException\<close> (the spec's EmptyDatasetError), whatever minimum size the
  statistic requires and whatever the sample/population flag is: \<open>min\<close>, \<open>max\<close>,
  \<open>range\<close>, \<open>sum\<close>, \<open>mean\<close>, \<open>median\<close>, \<open>modes\<close>, \<open>variance\<close>, \<open>stdev\<close>,
  \<open>midrange\<close>, \<open>quartiles\<close>, \<open>iqr\<close>, \<open>outliers\<close>, \<open>sumSquares\<close>,
  \<open>meanAbsDeviation\<close>, \<open>rms\<close>, \<open>sem\<close>, \<open>skewness\<close>, \<open>kurtosis\<close>, \<open>kurtosisExcess\<close>,
  \<open>coefficientOfVariation\<close>, \<open>relativeStdDeviation\<close> and \<open>frequencyTable\<close>.
\<close>

theorem C8_empty_dataset:
  assumes "size_sa b = 0"
  shows
  "min_sa b = Inl (DatasetEmptyException ''Dataset is empty.'') \<and>
   max_sa b = Inl (DatasetEmptyException ''Dataset is empty.'') \<and>
   range_sa b = Inl (DatasetEmptyException ''Dataset is empty.'') \<and>
   sum_sa b = Inl (DatasetEmptyException ''Dataset is empty.'') \<and>
   mean b = Inl (DatasetEmptyException ''Dataset is empty.'') \<and>
   median b = Inl (DatasetEmptyException ''Dataset is empty.'') \<and>
   modes b = Inl (DatasetEmptyException ''Dataset is empty.'') \<and>
   variance sample b = Inl (DatasetEmptyException ''Dataset is empty.'') \<and>
   stdev sample b = Inl (DatasetEmptyException ''Dataset is empty.'') \<and>
   midrange b = Inl (DatasetEmptyException ''Dataset is empty.'') \<and>
   quartiles b = Inl (DatasetEmptyException ''Dataset is empty.'') \<and>
   iqr b = Inl (DatasetEmptyException ''Dataset is empty.'') \<and>
   outliers b = Inl (DatasetEmptyException ''Dataset is empty.'') \<and>
   sumSquares b = Inl (DatasetEmptyException ''Dataset is empty.'') \<and>
   meanAbsDeviation b = Inl (DatasetEmptyException ''Dataset is empty.'') \<and>
   rms b = Inl (DatasetEmptyException ''Dataset is empty.'') \<and>
   sem sample b = Inl (DatasetEmptyException ''Dataset is empty.'') \<and>
   skewness sample b = Inl (DatasetEmptyException ''Dataset is empty.'') \<and>
   kurtosis b = Inl (DatasetEmptyException ''Dataset is empty.'') \<and>
   kurtosisExcess b = Inl (DatasetEmptyException ''Dataset is empty.'') \<and>
   coefficientOfVariation sample b = Inl (DatasetEmptyException ''Dataset is empty.'') \<and>
   relativeStdDeviation sample b = Inl (DatasetEmptyException ''Dataset is empty.'') \<and>
   frequencyTable b = Inl (DatasetEmptyException ''Dataset is empty.'')"
proof -
  have u: "used b = 0" using assms by (simp add: size_sa_def)
  note r = requireSize_empty[OF u]
  have min_sa: "min_sa b = Inl (DatasetEmptyException ''Dataset is empty.'')"
    by (simp add: min_sa_def r)
  have max_sa: "max_sa b = Inl (DatasetEmptyException ''Dataset is empty.'')"
    by (simp add: max_sa_def r)
  have range_sa: "range_sa b = Inl (DatasetEmptyException ''Dataset is empty.'')"
    by (simp add: range_sa_def r)
  have sum_sa: "sum_sa b = Inl (DatasetEmptyException ''Dataset is empty.'')"
    by (simp add: sum_sa_def r)
  have mean: "mean b = Inl (DatasetEmptyException ''Dataset is empty.'')"
    by (simp add: mean_def r)
  have median: "median b = Inl (DatasetEmptyException ''Dataset is empty.'')"
    by (simp add: median_def r)
  have modes: "modes b = Inl (DatasetEmptyException ''Dataset is empty.'')"
    by (simp add: modes_def r)
  have variance: "variance sample b = Inl (DatasetEmptyException ''Dataset is empty.'')"
    by (rule variance_empty[OF u])
  have stdev: "stdev sample b = Inl (DatasetEmptyException ''Dataset is empty.'')"
    by (rule stdev_empty[OF u])
  have midrange: "midrange b = Inl (DatasetEmptyException ''Dataset is empty.'')"
    by (simp add: midrange_def r)
  have quartiles: "quartiles b = Inl (DatasetEmptyException ''Dataset is empty.'')"
    by (simp add: quartiles_def r)
  have iqr: "iqr b = Inl (DatasetEmptyException ''Dataset is empty.'')"
    by (simp add: iqr_def r)
  have outliers: "outliers b = Inl (DatasetEmptyException ''Dataset is empty.'')"
    by (simp add: outliers_def r)
  have sumSquares: "sumSquares b = Inl (DatasetEmptyException ''Dataset is empty.'')"
    by (simp add: sumSquares_def r)
  have meanAbsDeviation: "meanAbsDeviation b = Inl (DatasetEmptyException ''Dataset is empty.'')"
    by (simp add: meanAbsDeviation_def r)
  have rms: "rms b = Inl (DatasetEmptyException ''Dataset is empty.'')"
    by (simp add: rms_def r)
  have sem: "sem sample b = Inl (DatasetEmptyException ''Dataset is empty.'')"
    by (simp add: sem_def r)
  have skewness: "skewness sample b = Inl (DatasetEmptyException ''Dataset is empty.'')"
    by (simp add: skewness_def r)
  have kurtosis: "kurtosis b = Inl (DatasetEmptyException ''Dataset is empty.'')"
    by (simp add: kurtosis_def r)
  have kurtosisExcess: "kurtosisExcess b = Inl (DatasetEmptyException ''Dataset is empty.'')"
    by (simp add: kurtosisExcess_def r)
  have coefficientOfVariation: "coefficientOfVariation sample b = Inl (DatasetEmptyException ''Dataset is empty.'')"
    by (rule coefficientOfVariation_empty[OF u])
  have relativeStdDeviation: "relativeStdDeviation sample b = Inl (DatasetEmptyException ''Dataset is empty.'')"
    by (simp add: relativeStdDeviation_def coefficientOfVariation_empty[OF u])
  have frequencyTable: "frequencyTable b = Inl (DatasetEmptyException ''Dataset is empty.'')"
    by (simp add: frequencyTable_def r)
  show ?thesis
    by (intro conjI; fact)
qed

theorem C8_empty_dataset_witness:
  "size_sa StatsArray_default = 0 \<and>
   min_sa StatsArray_default = Inl (DatasetEmptyException ''Dataset is empty.'') \<and>
   max_sa StatsArray_default = Inl (DatasetEmptyException ''Dataset is empty.'') \<and>
   range_sa StatsArray_default = Inl (DatasetEmptyException ''Dataset is empty.'') \<and>
   sum_sa StatsArray_default = Inl (DatasetEmptyException ''Dataset is empty.'') \<and>
   mean StatsArray_default = Inl (DatasetEmptyException ''Dataset is empty.'') \<and>
   median StatsArray_default = Inl (DatasetEmptyException ''Dataset is empty.'') \<and>
   modes StatsArray_default = Inl (DatasetEmptyException ''Dataset is empty.'') \<and>
   variance True StatsArray_default = Inl (DatasetEmptyException ''Dataset is empty.'') \<and>
   stdev True StatsArray_default = Inl (DatasetEmptyException ''Dataset is empty.'') \<and>
   midrange StatsArray_default = Inl (DatasetEmptyException ''Dataset is empty.'') \<and>
   quartiles StatsArray_default = Inl (DatasetEmptyException ''Dataset is empty.'') \<and>
   iqr StatsArray_default = Inl (DatasetEmptyException ''Dataset is empty.'') \<and>
   outliers StatsArray_default = Inl (DatasetEmptyException ''Dataset is empty.'') \<and>
   sumSquares StatsArray_default = Inl (DatasetEmptyException ''Dataset is empty.'') \<and>
   meanAbsDeviation StatsArray_default = Inl (DatasetEmptyException ''Dataset is empty.'') \<and>
   rms StatsArray_default = Inl (DatasetEmptyException ''Dataset is empty.'') \<and>
   sem True StatsArray_default = Inl (DatasetEmptyException ''Dataset is empty.'') \<and>
   skewness True StatsArray_default = Inl (DatasetEmptyException ''Dataset is empty.'') \<and>
   kurtosis StatsArray_default = Inl (DatasetEmptyException ''Dataset is empty.'') \<and>
   kurtosisExcess StatsArray_default = Inl (DatasetEmptyException ''Dataset is empty.'') \<and>
   coefficientOfVariation True StatsArray_default = Inl (DatasetEmptyException ''Dataset is empty.'') \<and>
   relativeStdDeviation True StatsArray_default = Inl (DatasetEmptyException ''Dataset is empty.'') \<and>
   frequencyTable StatsArray_default = Inl (DatasetEmptyException ''Dataset is empty.'')"
proof -
  have h: "size_sa StatsArray_default = 0"
    by (simp add: size_sa_def StatsArray_default_def)
  show ?thesis
    using h C8_empty_dataset[OF h, of True] by simp
qed

text \<open>
  Claim C9. On a non-empty buffer (well-formed and sorted, as the class keeps it)
  \<open>frequencyTable()\<close> returns a list of (value, count) pairs whose counts sum exactly to
  \<open>size()\<close> and whose values are in ascending order and pairwise distinct; the values
  are those of the buffer.
\<close>

theorem C9_frequencyTable:
  assumes "valid b" "sorted (elements b)" "size_sa b \<ge> 1"
  shows "\<exists>ft. frequencyTable b = Inr ft \<and>
           sum_list (map snd ft) = size_sa b \<and>
           sorted (map fst ft) \<and> distinct (map fst ft) \<and>
           set (map fst ft) = set (elements b)"
proof -
  have u: "0 < used b" using assms(3) by (simp add: size_sa_def)
  define ft where "ft = map (\<lambda>v. (v, count_list (elements b) v)) (remdups_adj (elements b))"
  have ft: "frequencyTable b = Inr ft"
    unfolding ft_def by (rule frequencyTable_eq[OF assms(1,2) u])
  have "frequencyTable b = Inr (frequencyTable_loop (data b) (used b) 0 [])"
    using u by (simp add: frequencyTable_def requireSize_enough)
  then have "ft = frequencyTable_loop (data b) (used b) 0 []" using ft by simp
  then have sum: "sum_list (map snd ft) = size_sa b"
    using frequencyTable_loop_sum[of 0 "used b" "data b" "[]"] by (simp add: size_sa_def)
  have fst: "map fst ft = remdups_adj (elements b)"
    unfolding ft_def by (simp add: comp_def)
  have "sorted_wrt (<) (map fst ft)"
    unfolding fst by (rule strict_sorted_remdups_adj[OF assms(2)])
  then have sd: "sorted (map fst ft) \<and> distinct (map fst ft)"
    using strict_sorted_iff by blast
  have "set (map fst ft) = set (elements b)" unfolding fst by simp
  with ft sum sd show ?thesis by blast
qed

theorem C9_frequencyTable_witness:
  "valid \<lparr>data = [3, 3, 5, 8, 0, 0, 0, 0], used = 4, cap = 8\<rparr> \<and>
   sorted (elements \<lparr>data = [3, 3, 5, 8, 0, 0, 0, 0], used = 4, cap = 8\<rparr>) \<and>
   size_sa \<lparr>data = [3, 3, 5, 8, 0, 0, 0, 0], used = 4, cap = 8\<rparr> \<ge> 1 \<and>
   frequencyTable \<lparr>data = [3, 3, 5, 8, 0, 0, 0, 0], used = 4, cap = 8\<rparr> =
     Inr [(3, 2), (5, 1), (8, 1)] \<and>
   (\<exists>ft. frequencyTable \<lparr>data = [3, 3, 5, 8, 0, 0, 0, 0], used = 4, cap = 8\<rparr> = Inr ft \<and>
      sum_list (map snd ft) = size_sa \<lparr>data = [3, 3, 5, 8, 0, 0, 0, 0], used = 4, cap = 8\<rparr> \<and>
      sorted (map fst ft) \<and> distinct (map fst ft) \<and>
      set (map fst ft) = set (elements \<lparr>data = [3, 3, 5, 8, 0, 0, 0, 0], used = 4, cap = 8\<rparr>))"
proof -
  let ?b = "\<lparr>data = [3, 3, 5, 8, 0, 0, 0, 0], used = 4, cap = 8\<rparr>"
  have h1: "valid ?b" by (simp add: valid_def)
  have h2: "sorted (elements ?b)" by (simp add: elements_def)
  have h3: "size_sa ?b \<ge> 1" by (simp add: size_sa_def)
  have e: "frequencyTable ?b = Inr [(3, 2), (5, 1), (8, 1)]" by code_simp
  show ?thesis
    using h1 h2 h3 e C9_frequencyTable[OF h1 h2 h3] by blast
qed
text \<open>
  Claim C10, as stated: on every buffer of size at least \<open>4\<close> whose elements are all
  equal, \<open>kurtosis()\<close> and \<open>kurtosisExcess()\<close> return exactly \<open>0\<close>. The guard of both
  functions tests the computed \<open>s\<close>, and \<open>s\<close> is computed from what \<open>mean()\<close> returns.
  On five copies of \<open>2\<^sup>5\<^sup>3 - 1 = 9007199254740991\<close> the sum \<open>5 (2\<^sup>5\<^sup>3 - 1)\<close> is exact in
  \<^verbatim>\<open>long double\<close>, its conversion to \<^verbatim>\<open>double\<close> is \<open>5 \<times> 2\<^sup>5\<^sup>3 - 8\<close> and the quotient by \<open>5\<close>
  is rounded to \<open>2\<^sup>5\<^sup>3 - 2\<close>: \<open>mean()\<close> is one less than the elements. Every deviation
  is \<open>1\<close>, \<open>s\<close> is the rounded \<open>sqrt (5 / 4)\<close>, the guard is not taken, and \<open>kurtosis()\<close>
  returns a positive number.
\<close>

theorem C10_kurtosis_all_equal_counterexample:
  "run [Insert 9007199254740991, Insert 9007199254740991, Insert 9007199254740991,
        Insert 9007199254740991, Insert 9007199254740991] StatsArray_default =
     Inr \<lparr>data = [9007199254740991, 9007199254740991, 9007199254740991, 9007199254740991,
                  9007199254740991, 0, 0, 0], used = 5, cap = 8\<rparr> \<and>
   elements \<lparr>data = [9007199254740991, 9007199254740991, 9007199254740991, 9007199254740991,
                     9007199254740991, 0, 0, 0], used = 5, cap = 8\<rparr> =
     replicate 5 9007199254740991 \<and>
   mean \<lparr>data = [9007199254740991, 9007199254740991, 9007199254740991, 9007199254740991,
                 9007199254740991, 0, 0, 0], used = 5, cap = 8\<rparr> = Inr (Fin 9007199254740990) \<and>
   kurtosis \<lparr>data = [9007199254740991, 9007199254740991, 9007199254740991, 9007199254740991,
                     9007199254740991, 0, 0, 0], used = 5, cap = 8\<rparr> \<noteq> Inr (Fin 0)"
proof -
  let ?b = "\<lparr>data = [9007199254740991, 9007199254740991, 9007199254740991, 9007199254740991,
                     9007199254740991, 0, 0, 0], used = 5, cap = 8\<rparr>"
  have r: "run [Insert 9007199254740991, Insert 9007199254740991, Insert 9007199254740991,
                Insert 9007199254740991, Insert 9007199254740991] StatsArray_default = Inr ?b"
    by code_simp
  have e: "elements ?b = replicate 5 9007199254740991"
    by (simp add: elements_def eval_nat_numeral)
  obtain k where k: "kurtosis ?b = Inr (Fin k)" "1 / 16 \<le> k"
    using kurtosis_max5_pos by blast
  have "k \<noteq> 0" using k(2) by simp
  then have n: "kurtosis ?b \<noteq> Inr (Fin 0)" unfolding k(1) by simp
  show ?thesis
    by (intro conjI) (rule r, rule e, rule mean_max5, rule n)
qed


text \<open>
  Claim C10, amended: on a buffer of size \<open>4 \<le> n < 2\<^sup>6\<^sup>4\<close> whose elements are all equal
  and on which \<open>mean()\<close> returns exactly that common value (so that every deviation and
  the computed \<open>s\<close> are \<open>0\<close>), \<open>kurtosis()\<close> and \<open>kurtosisExcess()\<close> both return \<open>0\<close>;
  \<open>kurtosisExcess\<close> does not subtract the correction term.
\<close>

theorem C10_kurtosis_all_equal_amended:
  assumes "size_sa b \<ge> 4" "size_sa b < 2 ^ 64" "\<forall>i<size_sa b. data b ! i = c"
    and "mean b = Inr (Fin c)"
  shows "kurtosis b = Inr (Fin 0) \<and> kurtosisExcess b = Inr (Fin 0)"
proof -
  have u: "4 \<le> used b" "used b < 2 ^ 64" "\<forall>i<used b. data b ! i = c"
    using assms(1,2,3) unfolding size_sa_def by blast+
  show ?thesis
    unfolding kurtosis_unfold[OF u(1) assms(4)] kurtosis_s_all_equal[OF u] by simp
qed

theorem C10_kurtosis_all_equal_amended_witness:
  "size_sa \<lparr>data = [7, 7, 7, 7, 7, 0, 0, 0], used = 5, cap = 8\<rparr> \<ge> 4 \<and>
   size_sa \<lparr>data = [7, 7, 7, 7, 7, 0, 0, 0], used = 5, cap = 8\<rparr> < 2 ^ 64 \<and>
   mean \<lparr>data = [7, 7, 7, 7, 7, 0, 0, 0], used = 5, cap = 8\<rparr> = Inr (Fin 7) \<and>
   kurtosis \<lparr>data = [7, 7, 7, 7, 7, 0, 0, 0], used = 5, cap = 8\<rparr> = Inr (Fin 0) \<and>
   kurtosisExcess \<lparr>data = [7, 7, 7, 7, 7, 0, 0, 0], used = 5, cap = 8\<rparr> = Inr (Fin 0)"
proof -
  let ?b = "\<lparr>data = [7, 7, 7, 7, 7, 0, 0, 0], used = 5, cap = 8\<rparr>"
  have h1: "size_sa ?b \<ge> 4" by (simp add: size_sa_def)
  have h2: "size_sa ?b < 2 ^ 64" by (simp add: size_sa_def)
  have n: "[7, 7, 7, 7, 7, 0, 0, 0] ! i = (7::real)" if "i < 5" for i
  proof -
    from that consider "i = 0" | "i = 1" | "i = 2" | "i = 3" | "i = 4" by linarith
    then show ?thesis by cases simp_all
  qed
  have h3: "\<forall>i<size_sa ?b. data ?b ! i = 7" by (simp add: size_sa_def n)
  show ?thesis
    using h1 h2 mean_77777 C10_kurtosis_all_equal_amended[OF h1 h2 h3 mean_77777] by blast
qed

end
